theory Spec2Isabelle
  imports Main
begin

section \<open>DeepFlags: the recursive flag parser of \<^verbatim>\<open>DeepFlags.hpp\<close>\<close>

text \<open>
  A shallow embedding of the parsing core of \<^verbatim>\<open>DeepFlags.hpp\<close>: the tokenizer
  \<^verbatim>\<open>ArgReader\<close>, the value parsers \<^verbatim>\<open>ParseType<T>\<close>, the flag nodes
  (\<^verbatim>\<open>PrimitiveFlag\<close>, \<^verbatim>\<open>Switch\<close>, \<^verbatim>\<open>VectorFlag\<close>, \<^verbatim>\<open>FlagGroup\<close>) and the
  entry point \<^verbatim>\<open>FlagBase::parseArgs\<close>. Mutation is explicit state passing: every
  operation returns the objects it changed. Help printing and the floating-point
  primitives are not part of the embedding.
\<close>

subsection \<open>Outcomes\<close>

text \<open>
  A call returns (\<open>Ret\<close>), has undefined behaviour in C++ (\<open>UB\<close>: a read past the
  end of \<^verbatim>\<open>argv\<close> or past the terminator of an argument), or has not returned
  within the recursion budget given to the model (\<open>OutOfFuel\<close>).
\<close>

datatype 'a outcome = Ret 'a | UB | OutOfFuel

subsection \<open>The tokenizer \<^verbatim>\<open>ArgReader\<close>\<close>

text \<open>
  \<^verbatim>\<open>argv\<close> is the list of its C strings (the characters before each terminator).
  \<^verbatim>\<open>argc\<close> and \<^verbatim>\<open>position\<close> are \<^verbatim>\<open>unsigned\<close>; \<^verbatim>\<open>position\<close> never exceeds
  \<^verbatim>\<open>argc\<close>, which comes from an \<^verbatim>\<open>int\<close>, so no arithmetic on them wraps.
\<close>

record ArgReader =
  argc :: nat
  argv :: "string list"
  charKey :: char
  key :: string
  val :: string
  flagAbsent :: bool
  flagIsCharacter :: bool
  valueSpecified :: bool
  clearedOut :: bool
  position :: nat
  charFlags :: "char list"

text \<open>The constructor: \<^verbatim>\<open>argc(_argc < 0 ? 0 : _argc)\<close> and the member initialisers.\<close>

definition newArgReader :: "int \<Rightarrow> string list \<Rightarrow> ArgReader" where
  "newArgReader a v =
     \<lparr>argc = (if a < 0 then 0 else nat a), argv = v, charKey = CHR 0x00, key = [],
      val = [], flagAbsent = True, flagIsCharacter = False, valueSpecified = False,
      clearedOut = False, position = 0, charFlags = []\<rparr>"

definition atEnd :: "ArgReader \<Rightarrow> bool" where
  "atEnd ar = clearedOut ar"

definition hasMoreArguments :: "ArgReader \<Rightarrow> bool" where
  "hasMoreArguments ar = (position ar < argc ar)"

definition hasValue :: "ArgReader \<Rightarrow> bool" where
  "hasValue ar = valueSpecified ar"

definition getValue :: "ArgReader \<Rightarrow> string" where
  "getValue ar = val ar"

definition hasAnyFlag :: "ArgReader \<Rightarrow> bool" where
  "hasAnyFlag ar = (\<not> flagAbsent ar)"

definition hasLongFlag :: "ArgReader \<Rightarrow> bool" where
  "hasLongFlag ar = (\<not> flagAbsent ar \<and> \<not> flagIsCharacter ar)"

definition hasShortFlag :: "ArgReader \<Rightarrow> bool" where
  "hasShortFlag ar = (\<not> flagAbsent ar \<and> flagIsCharacter ar)"

definition getLongFlag :: "ArgReader \<Rightarrow> string" where
  "getLongFlag ar = key ar"

definition getShortFlag :: "ArgReader \<Rightarrow> char" where
  "getShortFlag ar = charKey ar"

definition tell :: "ArgReader \<Rightarrow> nat" where
  "tell ar = position ar"

text \<open>
  \<^verbatim>\<open>curArg[i]\<close> for \<open>i\<close> up to the terminator: the terminator itself reads as the
  NUL character.
\<close>

definition charAt :: "string \<Rightarrow> nat \<Rightarrow> char" where
  "charAt s i = (if i < length s then s ! i else CHR 0x00)"

text \<open>
  \<^verbatim>\<open>parseNextArg\<close>. The first five assignments reset the token. A pending short
  flag of the cluster is served first, without moving \<^verbatim>\<open>position\<close>. Otherwise
  \<^verbatim>\<open>position >= argc || ++position >= argc\<close> ends the stream (the increment
  happens only when the first test fails). The argument is then classified:
  a bare value, a long flag (split at its first \<^verbatim>\<open>=\<close> after the two dashes), or
  a short-flag cluster. For the argument \<^verbatim>\<open>-\<close> the cluster loop starts at index
  2, one past the terminator: \<open>UB\<close>. So is reading \<^verbatim>\<open>argv[position]\<close> when the
  array is shorter than \<^verbatim>\<open>argc\<close> says.
\<close>

definition parseNextArg :: "ArgReader \<Rightarrow> ArgReader outcome" where
  "parseNextArg ar0 =
     (let ar = ar0\<lparr>flagAbsent := False, valueSpecified := False,
                   flagIsCharacter := False, val := [], charKey := CHR 0x00\<rparr>
      in case charFlags ar of
           c # cs \<Rightarrow> Ret (ar\<lparr>flagIsCharacter := True, charKey := c, charFlags := cs\<rparr>)
         | [] \<Rightarrow>
             if position ar \<ge> argc ar
             then Ret (ar\<lparr>key := [], clearedOut := True\<rparr>)
             else if Suc (position ar) \<ge> argc ar
             then Ret (ar\<lparr>position := Suc (position ar), key := [], clearedOut := True\<rparr>)
             else if Suc (position ar) \<ge> length (argv ar) then UB
             else
               let p = Suc (position ar); curArg = argv ar ! p; ar1 = ar\<lparr>position := p\<rparr>
               in if charAt curArg 0 \<noteq> CHR ''-''
                  then Ret (ar1\<lparr>key := [], val := curArg, flagAbsent := True,
                                 valueSpecified := True\<rparr>)
                  else if charAt curArg 1 = CHR ''-''
                  then
                    let body = drop 2 curArg
                    in if CHR ''='' \<in> set body
                       then Ret (ar1\<lparr>key := takeWhile (\<lambda>c. c \<noteq> CHR ''='') body,
                                      val := tl (dropWhile (\<lambda>c. c \<noteq> CHR ''='') body),
                                      valueSpecified := True\<rparr>)
                       else Ret (ar1\<lparr>key := body\<rparr>)
                  else if length curArg < 2 then UB
                  else Ret (ar1\<lparr>flagIsCharacter := True, key := [],
                                 charKey := curArg ! 1,
                                 charFlags := drop 2 curArg\<rparr>))"

text \<open>
  \<^verbatim>\<open>nextRawArgument\<close>: \<^verbatim>\<open>return value = argv[++position]\<close>, with no bound check
  of its own and no look at the pending short flags.
\<close>

definition nextRawArgument :: "ArgReader \<Rightarrow> (string \<times> ArgReader) outcome" where
  "nextRawArgument ar =
     (let p = Suc (position ar)
      in if p \<ge> length (argv ar) then UB
         else Ret (argv ar ! p,
                   ar\<lparr>flagAbsent := True, valueSpecified := True, flagIsCharacter := False,
                      key := [], position := p, val := argv ar ! p\<rparr>))"

subsection \<open>Value parsers \<^verbatim>\<open>ParseType<T>\<close>\<close>

text \<open>
  The primitive types for which \<^verbatim>\<open>Flag\<close> is specialised
  (\<^verbatim>\<open>df_internal_DEFINE_PRIMITIVE_FLAG\<close>), without \<^verbatim>\<open>float\<close>, \<^verbatim>\<open>double\<close> and \<^verbatim>\<open>long double\<close>.
\<close>

datatype ptype =
  PBool | PInt8 | PInt16 | PInt32 | PInt64
  | PUInt8 | PUInt16 | PUInt32 | PUInt64 | PString

datatype pvalue = VBool bool | VInt int | VString string

text \<open>\<^verbatim>\<open>P()\<close>, the value a \<^verbatim>\<open>PrimitiveFlag<P>\<close> starts with.\<close>

fun defaultValue :: "ptype \<Rightarrow> pvalue" where
  "defaultValue PBool = VBool False"
| "defaultValue PString = VString []"
| "defaultValue _ = VInt 0"

definition boolNames :: "(string \<times> bool) list" where
  "boolNames =
     [(''1'', True), (''on'', True), (''yes'', True), (''true'', True),
      (''0'', False), (''no'', False), (''off'', False), (''false'', False)]"

text \<open>\<^verbatim>\<open>lower\<close>: \<^verbatim>\<open>std::tolower\<close> (C locale) on every character.\<close>

definition tolower :: "char \<Rightarrow> char" where
  "tolower c =
     (let n = (of_char c :: nat)
      in if 65 \<le> n \<and> n \<le> 90 then char_of (n + 32) else c)"

definition lower :: "string \<Rightarrow> string" where
  "lower x = map tolower x"

text \<open>
  \<^verbatim>\<open>std::stoll(val, nullptr, 0)\<close> and \<^verbatim>\<open>std::stoull(val, nullptr, 0)\<close> belong to
  the C++ standard library, not to this repository; the model follows their
  documented behaviour (\<^verbatim>\<open>strtoll\<close>/\<^verbatim>\<open>strtoull\<close> with base 0): leading white
  space is skipped, one sign is accepted, a \<^verbatim>\<open>0x\<close> prefix selects base 16 and a
  leading \<^verbatim>\<open>0\<close> base 8, the longest run of digits is converted and what follows
  is ignored. No digit at all throws \<^verbatim>\<open>invalid_argument\<close>, a value outside the
  result type throws \<^verbatim>\<open>out_of_range\<close>; both are \<open>None\<close>. \<^verbatim>\<open>strtoull\<close> negates
  a value with a minus sign in the unsigned type.
\<close>

definition isspace :: "char \<Rightarrow> bool" where
  "isspace c = ((of_char c :: nat) \<in> {9, 10, 11, 12, 13, 32})"

definition digitValue :: "char \<Rightarrow> nat option" where
  "digitValue c =
     (let n = (of_char c :: nat)
      in if 48 \<le> n \<and> n \<le> 57 then Some (n - 48)
         else if 97 \<le> n \<and> n \<le> 122 then Some (n - 87)
         else if 65 \<le> n \<and> n \<le> 90 then Some (n - 55)
         else None)"

definition isDigitIn :: "nat \<Rightarrow> char \<Rightarrow> bool" where
  "isDigitIn base c = (case digitValue c of None \<Rightarrow> False | Some d \<Rightarrow> d < base)"

definition digitsValue :: "nat \<Rightarrow> string \<Rightarrow> nat" where
  "digitsValue base ds =
     foldl (\<lambda>acc c. acc * base + (case digitValue c of None \<Rightarrow> 0 | Some d \<Rightarrow> d)) 0 ds"

definition strtoCore :: "string \<Rightarrow> (bool \<times> nat) option" where
  "strtoCore s =
     (let s1 = dropWhile isspace s;
          neg = (charAt s1 0 = CHR ''-'');
          s2 = (if charAt s1 0 = CHR ''-'' \<or> charAt s1 0 = CHR ''+'' then tl s1 else s1);
          hex = (charAt s2 0 = CHR ''0''
                 \<and> (charAt s2 1 = CHR ''x'' \<or> charAt s2 1 = CHR ''X'')
                 \<and> isDigitIn 16 (charAt s2 2));
          base = (if hex then 16 else if charAt s2 0 = CHR ''0'' then 8 else 10);
          ds = takeWhile (isDigitIn base) (if hex then drop 2 s2 else s2)
      in if ds = [] then None else Some (neg, digitsValue base ds))"

definition stoll :: "string \<Rightarrow> int option" where
  "stoll s =
     (case strtoCore s of
        None \<Rightarrow> None
      | Some (neg, m) \<Rightarrow>
          let i = (if neg then - int m else int m)
          in if i < - (2 ^ 63) \<or> i > 2 ^ 63 - 1 then None else Some i)"

definition stoull :: "string \<Rightarrow> int option" where
  "stoull s =
     (case strtoCore s of
        None \<Rightarrow> None
      | Some (neg, m) \<Rightarrow>
          if int m > 2 ^ 64 - 1 then None
          else Some (if neg then (2 ^ 64 - int m) mod 2 ^ 64 else int m))"

text \<open>
  \<^verbatim>\<open>ParseIntType<T, BT, parse>\<close>: the value is kept when it lies between
  \<^verbatim>\<open>numeric_limits<T>::min()\<close> and \<^verbatim>\<open>max()\<close>; any exception sets \<^verbatim>\<open>error\<close>.
\<close>

definition ParseIntType :: "int \<Rightarrow> int \<Rightarrow> (string \<Rightarrow> int option) \<Rightarrow> string \<Rightarrow> pvalue option" where
  "ParseIntType lo hi parse s =
     (case parse s of
        None \<Rightarrow> None
      | Some i \<Rightarrow> if i \<ge> lo \<and> i \<le> hi then Some (VInt i) else None)"

text \<open>\<^verbatim>\<open>ParseType<T>\<close>: \<open>None\<close> is \<^verbatim>\<open>error = true\<close>.\<close>

fun ParseType :: "ptype \<Rightarrow> string \<Rightarrow> pvalue option" where
  "ParseType PBool s = map_option VBool (map_of boolNames (lower s))"
| "ParseType PInt8 s = ParseIntType (- (2 ^ 7)) (2 ^ 7 - 1) stoll s"
| "ParseType PInt16 s = ParseIntType (- (2 ^ 15)) (2 ^ 15 - 1) stoll s"
| "ParseType PInt32 s = ParseIntType (- (2 ^ 31)) (2 ^ 31 - 1) stoll s"
| "ParseType PInt64 s = ParseIntType (- (2 ^ 63)) (2 ^ 63 - 1) stoll s"
| "ParseType PUInt8 s = ParseIntType 0 (2 ^ 8 - 1) stoull s"
| "ParseType PUInt16 s = ParseIntType 0 (2 ^ 16 - 1) stoull s"
| "ParseType PUInt32 s = ParseIntType 0 (2 ^ 32 - 1) stoull s"
| "ParseType PUInt64 s = ParseIntType 0 (2 ^ 64 - 1) stoull s"
| "ParseType PString s = Some (VString s)"

subsection \<open>Flag types and flag nodes\<close>

text \<open>
  A flag type is what the template argument of \<^verbatim>\<open>Flag<T>\<close> fixes at compile
  time: a primitive, a \<^verbatim>\<open>Switch\<close>, a \<^verbatim>\<open>VectorFlag<T, greedy, reentrant>\<close>
  (\<^verbatim>\<open>vector<T>\<close> is \<open>TVector True True\<close>, \<^verbatim>\<open>Sequential<T>\<close> is
  \<open>TVector True False\<close>, \<^verbatim>\<open>Repeated<T>\<close> is \<open>TVector False True\<close>), or a struct
  derived from \<^verbatim>\<open>FlagGroup\<close> whose data members are declared with
  \<^verbatim>\<open>Flags::flag(this, name, shortname)\<close> and whose constructor hands its
  \<^verbatim>\<open>CtorArgs\<close> on to \<^verbatim>\<open>FlagGroup\<close>, as every group of the repository does.
  A missing long name is the empty string, a missing short name the NUL character.
\<close>

datatype ftype =
  TPrim ptype
  | TSwitch
  | TVector bool bool ftype
  | TGroup "decl list"
and decl = Decl string char ftype

text \<open>
  A node is the state of one constructed flag object.
  \<^item> \<open>Prim name shortname T present value\<close>: \<^verbatim>\<open>PrimitiveFlag<T>\<close>;
  \<^item> \<open>Switch name shortname present\<close>;
  \<^item> \<open>Vector name shortname greedy reentrant T entered value\<close>: \<^verbatim>\<open>VectorFlag\<close>;
    its \<^verbatim>\<open>value\<close> is kept as the list of the element flags that were pushed
    (\<^verbatim>\<open>flag.value\<close> is a field of each);
  \<^item> \<open>Group name shortname members membersByLongName membersByShortName\<close>:
    \<^verbatim>\<open>FlagGroup\<close>; a member pointer is the index of the member in \<open>members\<close>, and
    the two \<^verbatim>\<open>std::map\<close>s are association lists read with \<open>map_of\<close>, the
    newest entry first.
  \<^verbatim>\<open>Flag<T, true>\<close>, the wrapper of a type \<open>T\<close> that is itself a flag (a group
  or a switch), forwards \<^verbatim>\<open>atCapacity\<close>,
  \<^verbatim>\<open>hasFlag\<close> and \<^verbatim>\<open>parseArgsR\<close> to its \<^verbatim>\<open>value\<close>, which is built from the same
  \<^verbatim>\<open>CtorArgs\<close>; the model identifies it with that value. When such a wrapper
  is a member of a group, the wrapper and its value both call \<^verbatim>\<open>addFlag\<close>, so
  that \<^verbatim>\<open>members\<close> holds two pointers into the one object and the two maps keep
  the later one; the model keeps one member for the two.
\<close>

datatype node =
  Prim string char ptype bool pvalue
  | Switch string char bool
  | Vector string char bool bool ftype bool "node list"
  | Group string char "node list" "(string \<times> nat) list" "(char \<times> nat) list"

fun getLongName :: "node \<Rightarrow> string" where
  "getLongName (Prim n c T p v) = n"
| "getLongName (Switch n c p) = n"
| "getLongName (Vector n c g r T e vs) = n"
| "getLongName (Group n c ms bl bs) = n"

fun getShortName :: "node \<Rightarrow> char" where
  "getShortName (Prim n c T p v) = c"
| "getShortName (Switch n c p) = c"
| "getShortName (Vector n c g r T e vs) = c"
| "getShortName (Group n c ms bl bs) = c"

definition hasLongName :: "node \<Rightarrow> bool" where
  "hasLongName f = (length (getLongName f) \<noteq> 0)"

definition hasShortName :: "node \<Rightarrow> bool" where
  "hasShortName f = (getShortName f \<noteq> CHR 0x00)"

text \<open>\<^verbatim>\<open>FlagGroup::addFlag\<close>, called by the constructor of every member.\<close>

fun addFlag :: "node \<Rightarrow> node \<Rightarrow> node" where
  "addFlag (Group n c ms bl bs) flag =
     Group n c (ms @ [flag])
       (if hasLongName flag then (getLongName flag, length ms) # bl else bl)
       (if hasShortName flag then (getShortName flag, length ms) # bs else bs)"
| "addFlag g flag = g"

text \<open>
  \<^verbatim>\<open>Instantiator::instantiate<Flag<T>>(args)\<close>: the freshly constructed flag of
  type \<open>T\<close> with the names of \<open>args\<close>. A group constructs its members in
  declaration order, each adding itself to the group.
\<close>

fun instantiate :: "ftype \<Rightarrow> string \<Rightarrow> char \<Rightarrow> node"
  and instantiateDecl :: "decl \<Rightarrow> node"
  and instantiateAll :: "decl list \<Rightarrow> node list" where
  "instantiate (TPrim T) n c = Prim n c T False (defaultValue T)"
| "instantiate TSwitch n c = Switch n c False"
| "instantiate (TVector g r T) n c = Vector n c g r T False []"
| "instantiate (TGroup ds) n c = foldl addFlag (Group n c [] [] []) (instantiateAll ds)"
| "instantiateDecl (Decl n c T) = instantiate T n c"
| "instantiateAll [] = []"
| "instantiateAll (d # ds) = instantiateDecl d # instantiateAll ds"

subsection \<open>Capacity and ownership of names\<close>

text \<open>
  \<^verbatim>\<open>atCapacity\<close>: \<^verbatim>\<open>present\<close> for a primitive and a switch,
  \<^verbatim>\<open>entered && !reentrant\<close> for a vector, and for a group the loop that returns
  false at the first member that is not at capacity.
\<close>

fun atCapacity :: "node \<Rightarrow> bool" where
  "atCapacity (Prim n c T present v) = present"
| "atCapacity (Switch n c present) = present"
| "atCapacity (Vector n c greedy reentrant T entered vs) = (entered \<and> \<not> reentrant)"
| "atCapacity (Group n c ms bl bs) = list_all atCapacity ms"

text \<open>
  Two measures, used only to show that \<^verbatim>\<open>hasFlag\<close> terminates: a vector asks a
  freshly instantiated element flag, which is as deep as the element type.
\<close>

fun tsize :: "ftype \<Rightarrow> nat"
  and dsize :: "decl \<Rightarrow> nat"
  and dssize :: "decl list \<Rightarrow> nat" where
  "tsize (TPrim T) = 1"
| "tsize TSwitch = 1"
| "tsize (TVector g r T) = Suc (tsize T)"
| "tsize (TGroup ds) = Suc (dssize ds)"
| "dsize (Decl n c T) = tsize T"
| "dssize [] = 0"
| "dssize (d # ds) = dsize d + dssize ds"

fun nsize :: "node \<Rightarrow> nat" where
  "nsize (Prim n c T p v) = 1"
| "nsize (Switch n c p) = 1"
| "nsize (Vector n c g r T e vs) = Suc (tsize T)"
| "nsize (Group n c ms bl bs) = Suc (sum_list (map nsize ms))"

lemma nsize_foldl_addFlag:
  "nsize (foldl addFlag (Group n c ms bl bs) xs) = Suc (sum_list (map nsize (ms @ xs)))"
  by (induction xs arbitrary: ms bl bs) simp_all

lemma nsize_instantiate:
  "nsize (instantiate T n c) = tsize T"
  "nsize (instantiateDecl d) = dsize d"
  "sum_list (map nsize (instantiateAll ds)) = dssize ds"
  by (induction T n c and d and ds rule: instantiate_instantiateDecl_instantiateAll.induct)
     (simp_all add: nsize_foldl_addFlag)

lemma nsize_member: "m \<in> set ms \<Longrightarrow> nsize m < Suc (sum_list (map nsize ms))"
  by (induction ms) auto

text \<open>
  \<^verbatim>\<open>hasFlag(string)\<close> and \<^verbatim>\<open>hasFlag(char)\<close>. A primitive and a switch compare
  their own name. A vector compares its own name and then asks \<^verbatim>\<open>newFlag()\<close>, a
  fresh element flag carrying the vector's names. A group asks its members and
  nothing else.
\<close>

function hasFlagL :: "node \<Rightarrow> string \<Rightarrow> bool" where
  "hasFlagL (Prim n c T p v) name = (n = name)"
| "hasFlagL (Switch n c p) name = (n = name)"
| "hasFlagL (Vector n c g r T e vs) name = (n = name \<or> hasFlagL (instantiate T n c) name)"
| "hasFlagL (Group n c ms bl bs) name = list_ex (\<lambda>m. hasFlagL m name) ms"
  by pat_completeness auto
termination
  by (relation "measure (\<lambda>(f, name). nsize f)")
     (auto simp: nsize_instantiate nsize_member)

function hasFlagS :: "node \<Rightarrow> char \<Rightarrow> bool" where
  "hasFlagS (Prim n c T p v) name = (c = name)"
| "hasFlagS (Switch n c p) name = (c = name)"
| "hasFlagS (Vector n c g r T e vs) name = (c = name \<or> hasFlagS (instantiate T n c) name)"
| "hasFlagS (Group n c ms bl bs) name = list_ex (\<lambda>m. hasFlagS m name) ms"
  by pat_completeness auto
termination
  by (relation "measure (\<lambda>(f, name). nsize f)")
     (auto simp: nsize_instantiate nsize_member)

subsection \<open>The consume operation \<^verbatim>\<open>parseArgsR\<close>\<close>

text \<open>
  \<^verbatim>\<open>VectorFlag::canReenter(argReader, flag)\<close>; \<open>flag\<close> is the element flag
  that has just parsed.
\<close>

definition canReenter :: "bool \<Rightarrow> ArgReader \<Rightarrow> node \<Rightarrow> bool" where
  "canReenter reentrant ar flag =
     (if \<not> reentrant then False
      else if hasShortFlag ar then hasFlagS flag (getShortFlag ar)
      else hasFlagL flag (getLongFlag ar))"

text \<open>
  \<^verbatim>\<open>SingletonFlag::parseArgsR\<close> with \<^verbatim>\<open>PrimitiveFlag<P>::parse\<close> inlined: an
  attached value is used if there is one; otherwise, if \<^verbatim>\<open>position < argc\<close>,
  the next raw argument is taken as the value, whatever it looks like.
\<close>

definition parseSingleton ::
  "string \<Rightarrow> char \<Rightarrow> ptype \<Rightarrow> bool \<Rightarrow> pvalue \<Rightarrow> ArgReader \<Rightarrow> (bool \<times> node \<times> ArgReader) outcome" where
  "parseSingleton n c T present v ar =
     (if hasValue ar then
        (case ParseType T (getValue ar) of
           None \<Rightarrow> Ret (False, Prim n c T present v, ar)
         | Some v' \<Rightarrow>
             (case parseNextArg ar of
                Ret ar' \<Rightarrow> Ret (True, Prim n c T True v', ar')
              | UB \<Rightarrow> UB
              | OutOfFuel \<Rightarrow> OutOfFuel))
      else if hasMoreArguments ar then
        (case nextRawArgument ar of
           Ret (raw, ar1) \<Rightarrow>
             (case ParseType T raw of
                None \<Rightarrow> Ret (False, Prim n c T present v, ar1)
              | Some v' \<Rightarrow>
                  (case parseNextArg ar1 of
                     Ret ar' \<Rightarrow> Ret (True, Prim n c T True v', ar')
                   | UB \<Rightarrow> UB
                   | OutOfFuel \<Rightarrow> OutOfFuel))
         | UB \<Rightarrow> UB
         | OutOfFuel \<Rightarrow> OutOfFuel)
      else Ret (False, Prim n c T present v, ar))"

text \<open>\<^verbatim>\<open>Switch::parseArgsR\<close>.\<close>

definition parseSwitch ::
  "string \<Rightarrow> char \<Rightarrow> bool \<Rightarrow> ArgReader \<Rightarrow> (bool \<times> node \<times> ArgReader) outcome" where
  "parseSwitch n c present ar =
     (if hasValue ar then Ret (False, Switch n c present, ar)
      else (case parseNextArg ar of
              Ret ar' \<Rightarrow> Ret (True, Switch n c True, ar')
            | UB \<Rightarrow> UB
            | OutOfFuel \<Rightarrow> OutOfFuel))"

text \<open>
  The first test of \<^verbatim>\<open>FlagGroup::parseArgsR\<close>: the token is the group's own
  name, of the kind of the token.
\<close>

definition ownName :: "string \<Rightarrow> char \<Rightarrow> ArgReader \<Rightarrow> bool" where
  "ownName n c ar =
     ((length n \<noteq> 0 \<and> hasLongFlag ar \<and> n = getLongFlag ar)
      \<or> (c \<noteq> CHR 0x00 \<and> hasShortFlag ar \<and> c = getShortFlag ar))"

text \<open>
  \<^verbatim>\<open>parseArgsR\<close> of every node, and \<open>groupLoop\<close>, the \<^verbatim>\<open>while\<close> loop of
  \<^verbatim>\<open>FlagGroup::parseArgsR\<close>. The first argument is the recursion budget: every
  call and every iteration spends one unit. The result is the returned
  \<^verbatim>\<open>bool\<close>, the node and the reader as the call left them.

  The vector sets \<^verbatim>\<open>entered\<close>, lets a fresh element flag consume, returns
  without appending when the element failed or \<^verbatim>\<open>tell()\<close> did not move, and
  otherwise appends and, when greedy, calls itself again if the token is no
  flag or \<^verbatim>\<open>canReenter\<close> holds.

  The group refuses a token that is not exactly one of long flag and short flag,
  steps over its own name, and loops: a long flag is looked up in
  \<^verbatim>\<open>membersByLongName\<close>, anything else in \<^verbatim>\<open>membersByShortName\<close>; only the
  long branch compares \<^verbatim>\<open>tell()\<close> before and after the member's call.
\<close>

fun parseArgsR :: "nat \<Rightarrow> node \<Rightarrow> ArgReader \<Rightarrow> (bool \<times> node \<times> ArgReader) outcome"
  and groupLoop ::
    "nat \<Rightarrow> string \<Rightarrow> char \<Rightarrow> node list \<Rightarrow> (string \<times> nat) list \<Rightarrow> (char \<times> nat) list
       \<Rightarrow> ArgReader \<Rightarrow> (bool \<times> node \<times> ArgReader) outcome" where
  "parseArgsR 0 f ar = OutOfFuel"
| "parseArgsR (Suc k) (Prim n c T present v) ar = parseSingleton n c T present v ar"
| "parseArgsR (Suc k) (Switch n c present) ar = parseSwitch n c present ar"
| "parseArgsR (Suc k) (Vector n c greedy reentrant T entered vs) ar =
     (case parseArgsR k (instantiate T n c) ar of
        Ret (ok, flag, ar') \<Rightarrow>
          if \<not> ok then Ret (False, Vector n c greedy reentrant T True vs, ar')
          else if tell ar = tell ar' then Ret (True, Vector n c greedy reentrant T True vs, ar')
          else if greedy \<and> (\<not> hasAnyFlag ar' \<or> canReenter reentrant ar' flag)
          then parseArgsR k (Vector n c greedy reentrant T True (vs @ [flag])) ar'
          else Ret (True, Vector n c greedy reentrant T True (vs @ [flag]), ar')
      | UB \<Rightarrow> UB
      | OutOfFuel \<Rightarrow> OutOfFuel)"
| "parseArgsR (Suc k) (Group n c ms bl bs) ar =
     (if hasLongFlag ar = hasShortFlag ar then Ret (False, Group n c ms bl bs, ar)
      else if ownName n c ar then
        (case parseNextArg ar of
           Ret ar' \<Rightarrow> groupLoop k n c ms bl bs ar'
         | UB \<Rightarrow> UB
         | OutOfFuel \<Rightarrow> OutOfFuel)
      else groupLoop k n c ms bl bs ar)"
| "groupLoop 0 n c ms bl bs ar = OutOfFuel"
| "groupLoop (Suc k) n c ms bl bs ar =
     (if atEnd ar then Ret (True, Group n c ms bl bs, ar)
      else if hasLongFlag ar then
        (case map_of bl (getLongFlag ar) of
           None \<Rightarrow> Ret (True, Group n c ms bl bs, ar)
         | Some i \<Rightarrow>
             if i \<ge> length ms then UB
             else if atCapacity (ms ! i) then Ret (True, Group n c ms bl bs, ar)
             else
               (case parseArgsR k (ms ! i) ar of
                  Ret (ok, m, ar') \<Rightarrow>
                    if \<not> ok then Ret (False, Group n c (ms[i := m]) bl bs, ar')
                    else if tell ar' = tell ar then Ret (True, Group n c (ms[i := m]) bl bs, ar')
                    else groupLoop k n c (ms[i := m]) bl bs ar'
                | UB \<Rightarrow> UB
                | OutOfFuel \<Rightarrow> OutOfFuel))
      else
        (case map_of bs (getShortFlag ar) of
           None \<Rightarrow> Ret (True, Group n c ms bl bs, ar)
         | Some i \<Rightarrow>
             if i \<ge> length ms then UB
             else if atCapacity (ms ! i) then Ret (True, Group n c ms bl bs, ar)
             else
               (case parseArgsR k (ms ! i) ar of
                  Ret (ok, m, ar') \<Rightarrow>
                    if \<not> ok then Ret (False, Group n c (ms[i := m]) bl bs, ar')
                    else groupLoop k n c (ms[i := m]) bl bs ar'
                | UB \<Rightarrow> UB
                | OutOfFuel \<Rightarrow> OutOfFuel)))"

text \<open>
  \<^verbatim>\<open>FlagBase::parseArgs(argc, argv)\<close>: nothing is parsed when \<^verbatim>\<open>argc < 2\<close>;
  otherwise the first token is read, the node consumes, and the parse succeeds
  when the node returned true and the reader is at its end. The diagnostics
  written to \<^verbatim>\<open>stderr\<close> are not modelled.
\<close>

definition parseArgs :: "nat \<Rightarrow> node \<Rightarrow> int \<Rightarrow> string list \<Rightarrow> (bool \<times> node) outcome" where
  "parseArgs fuel f a v =
     (if a < 2 then Ret (True, f)
      else
        (case parseNextArg (newArgReader a v) of
           Ret ar \<Rightarrow>
             (case parseArgsR fuel f ar of
                Ret (ok, f', ar') \<Rightarrow>
                  if \<not> ok then Ret (False, f')
                  else if \<not> atEnd ar' then Ret (False, f')
                  else Ret (True, f')
              | UB \<Rightarrow> UB
              | OutOfFuel \<Rightarrow> OutOfFuel)
         | UB \<Rightarrow> UB
         | OutOfFuel \<Rightarrow> OutOfFuel))"

subsection \<open>Reading a tree\<close>

text \<open>The \<^verbatim>\<open>members\<close> of a group and the \<^verbatim>\<open>value\<close> of a vector.\<close>

fun members :: "node \<Rightarrow> node list" where
  "members (Group n c ms bl bs) = ms"
| "members f = []"

fun vectorValue :: "node \<Rightarrow> node list" where
  "vectorValue (Vector n c g r T e vs) = vs"
| "vectorValue f = []"

text \<open>
  The node at a path: an index into the \<^verbatim>\<open>members\<close> of a group or into the
  \<^verbatim>\<open>value\<close> of a vector at every step.
\<close>

fun subnode :: "nat list \<Rightarrow> node \<Rightarrow> node option" where
  "subnode [] f = Some f"
| "subnode (i # p) f =
     (case f of
        Group n c ms bl bs \<Rightarrow> if i < length ms then subnode p (ms ! i) else None
      | Vector n c g r T e vs \<Rightarrow> if i < length vs then subnode p (vs ! i) else None
      | Prim n c T pr v \<Rightarrow> None
      | Switch n c pr \<Rightarrow> None)"

text \<open>The element types that are not made of further flags.\<close>

fun leafType :: "ftype \<Rightarrow> bool" where
  "leafType (TPrim P) = True"
| "leafType TSwitch = True"
| "leafType (TVector g r T) = False"
| "leafType (TGroup ds) = False"

text \<open>
  \<open>pristine f\<close>: every field of the tree is as its constructor left it: no
  primitive and no switch is \<^verbatim>\<open>present\<close>, every primitive holds \<^verbatim>\<open>P()\<close>,
  every vector is empty and not \<^verbatim>\<open>entered\<close>.
\<close>

fun pristine :: "node \<Rightarrow> bool" where
  "pristine (Prim n c T p v) = (\<not> p \<and> v = defaultValue T)"
| "pristine (Switch n c p) = (\<not> p)"
| "pristine (Vector n c g r T e vs) = (\<not> e \<and> vs = [])"
| "pristine (Group n c ms bl bs) = list_all pristine ms"

text \<open>
  \<open>evolves f f'\<close>: \<open>f'\<close> is the node \<open>f\<close> at a later time. Names, types and the
  group's indices are the same; \<^verbatim>\<open>present\<close> and \<^verbatim>\<open>entered\<close>, once set, stay
  set; a vector keeps the values it had and may have more.
\<close>

fun evolves :: "node \<Rightarrow> node \<Rightarrow> bool"
  and evolvesAll :: "node list \<Rightarrow> node list \<Rightarrow> bool" where
  "evolves (Prim n c T p v) (Prim n' c' T' p' v') = (n' = n \<and> c' = c \<and> T' = T \<and> (p \<longrightarrow> p'))"
| "evolves (Switch n c p) (Switch n' c' p') = (n' = n \<and> c' = c \<and> (p \<longrightarrow> p'))"
| "evolves (Vector n c g r T e vs) (Vector n' c' g' r' T' e' vs') =
     (n' = n \<and> c' = c \<and> g' = g \<and> r' = r \<and> T' = T \<and> (e \<longrightarrow> e') \<and> take (length vs) vs' = vs)"
| "evolves (Group n c ms bl bs) (Group n' c' ms' bl' bs') =
     (n' = n \<and> c' = c \<and> bl' = bl \<and> bs' = bs \<and> evolvesAll ms ms')"
| "evolves f f' = False"
| "evolvesAll [] [] = True"
| "evolvesAll (m # ms) (m' # ms') = (evolves m m' \<and> evolvesAll ms ms')"
| "evolvesAll ms ms' = False"

subsection \<open>The flag groups of the tests and of the example\<close>

text \<open>
  The group of scenario A: \<^verbatim>\<open>Flag<bool> alive\<close>, \<^verbatim>\<open>Flag<int64_t> param\<close> and
  \<^verbatim>\<open>Flag<vector<int>> inds\<close> (named \<^verbatim>\<open>ind\<close>) as \<^verbatim>\<open>BasicTest::MyFlagGroup\<close>
  declares them, in a root group without a name.
\<close>

definition scenarioA :: node where
  "scenarioA =
     instantiate
       (TGroup [Decl ''alive'' (CHR 0x00) (TPrim PBool),
                Decl ''param'' (CHR 0x00) (TPrim PInt64),
                Decl ''ind'' (CHR 0x00) (TVector True True (TPrim PInt32))])
       [] (CHR 0x00)"

definition argvA :: "string list" where
  "argvA = [''prog'', ''--alive=true'', ''--param'', ''20'', ''--ind=10'', ''--ind'', ''11'']"

text \<open>
  \<^verbatim>\<open>Test2::RepeatableGroup\<close> and \<^verbatim>\<open>Test2::MyFlagGroup\<close>, with the argument list
  of scenario C and the one of the test \<^verbatim>\<open>SequentialFlagsCannotBeReentered\<close>.
\<close>

definition RepeatableGroup :: ftype where
  "RepeatableGroup = TGroup [Decl ''weights'' (CHR 0x00) (TVector True False (TPrim PInt32))]"

definition scenarioC :: node where
  "scenarioC =
     instantiate
       (TGroup [Decl ''param'' (CHR 0x00) (TPrim PInt64),
                Decl ''lists'' (CHR 0x00) (TVector True True RepeatableGroup)])
       [] (CHR 0x00)"

definition argvC :: "string list" where
  "argvC =
     [''prog'', ''--lists'', ''--weights'', ''1'', ''2'', ''3'', ''--weights'', ''4'', ''5'', ''6'',
      ''--param'', ''1336'', ''--lists'', ''--weights'', ''10'', ''11'', ''12'']"

definition argvTest2 :: "string list" where
  "argvTest2 =
     [''flagstext.exe'', ''--lists'',
      ''--weights'', ''1'', ''2'', ''3'', ''--weights'', ''4'', ''5'', ''6'',
      ''--weights'', ''7'', ''8'', ''9'', ''--param'', ''1336'', ''--lists'',
      ''--weights'', ''10'', ''11'', ''12'', ''--weights'', ''13'', ''14'', ''15'']"

text \<open>\<^verbatim>\<open>DisplayFile\<close> and \<^verbatim>\<open>AllFlags\<close> of \<^verbatim>\<open>Example.cpp\<close>.\<close>

definition DisplayFile :: ftype where
  "DisplayFile =
     TGroup [Decl ''file'' (CHR ''f'') (TPrim PString),
             Decl ''label'' (CHR ''l'') (TPrim PString),
             Decl ''bookmark'' (CHR ''b'') (TVector True True (TPrim PInt32)),
             Decl [] (CHR ''p'') TSwitch]"

definition AllFlags :: node where
  "AllFlags =
     instantiate (TGroup [Decl ''display'' (CHR ''D'') (TVector False True DisplayFile)])
       [] (CHR 0x00)"

text \<open>
  A group with a switch \<^verbatim>\<open>toggle\<close> and a \<^verbatim>\<open>vector<Switch>\<close> named
  \<^verbatim>\<open>verbose\<close>, and an argument list that gives the second \<^verbatim>\<open>verbose\<close> a
  value.
\<close>

definition W :: node where
  "W = instantiate (TGroup [Decl ''toggle'' (CHR 0x00) TSwitch,
         Decl ''verbose'' (CHR 0x00) (TVector True True TSwitch)]) [] (CHR 0x00)"

definition argvW :: "string list" where
  "argvW = [''prog'', ''--toggle'', ''--verbose'', ''--verbose=x'']"

subsection \<open>Notions used to state the properties\<close>

text \<open>
  The token of a reader belongs to a flag: \<^verbatim>\<open>hasFlag\<close> with the reader's short
  flag if the token is a short flag, with its long flag otherwise, the choice
  that \<^verbatim>\<open>canReenter\<close> makes.
\<close>

definition tokenOwnedBy :: "node \<Rightarrow> ArgReader \<Rightarrow> bool" where
  "tokenOwnedBy flag ar =
     (if hasShortFlag ar then hasFlagS flag (getShortFlag ar) else hasFlagL flag (getLongFlag ar))"

text \<open>A consume call has returned false.\<close>

definition failed :: "(bool \<times> node \<times> ArgReader) outcome \<Rightarrow> bool" where
  "failed r = (case r of Ret (ok, f, ar) \<Rightarrow> \<not> ok | UB \<Rightarrow> False | OutOfFuel \<Rightarrow> False)"

text \<open>
  Reader states by what the reader stands on, over an \<^verbatim>\<open>argv\<close> that is as long
  as \<^verbatim>\<open>argc\<close> says: a long flag without and with an attached value, a short
  flag with the rest of its cluster pending, and the end of the stream.
\<close>

definition onLongFlag :: "string list \<Rightarrow> nat \<Rightarrow> string \<Rightarrow> ArgReader" where
  "onLongFlag v p k =
     \<lparr>argc = length v, argv = v, charKey = CHR 0x00, key = k, val = [], flagAbsent = False,
      flagIsCharacter = False, valueSpecified = False, clearedOut = False, position = p,
      charFlags = []\<rparr>"

definition onLongFlagValue :: "string list \<Rightarrow> nat \<Rightarrow> string \<Rightarrow> string \<Rightarrow> ArgReader" where
  "onLongFlagValue v p k x = (onLongFlag v p k)\<lparr>val := x, valueSpecified := True\<rparr>"

definition onShortFlag :: "string list \<Rightarrow> nat \<Rightarrow> char \<Rightarrow> char list \<Rightarrow> ArgReader" where
  "onShortFlag v p c q =
     (onLongFlag v p [])\<lparr>flagIsCharacter := True, charKey := c, charFlags := q\<rparr>"

definition onEnd :: "string list \<Rightarrow> ArgReader" where
  "onEnd v = (onLongFlag v (length v) [])\<lparr>clearedOut := True\<rparr>"

text \<open>
  Two readers that stand on the same token with the same arguments still to
  come, the second \<open>d\<close> arguments further in a list that is \<open>d\<close> arguments
  longer. What lies behind the position is not compared.
\<close>

definition shifted :: "nat \<Rightarrow> ArgReader \<Rightarrow> ArgReader \<Rightarrow> bool" where
  "shifted d a b =
     (charKey b = charKey a \<and> key b = key a \<and> val b = val a \<and> flagAbsent b = flagAbsent a
      \<and> flagIsCharacter b = flagIsCharacter a \<and> valueSpecified b = valueSpecified a
      \<and> clearedOut b = clearedOut a \<and> charFlags b = charFlags a
      \<and> position b = position a + d \<and> argc b = argc a + d
      \<and> drop (Suc (position b)) (argv b) = drop (Suc (position a)) (argv a))"

text \<open>
  Two calls end alike: both undefined, both out of budget, or both returned with
  the same boolean and the same node. \<open>sameResult\<close> asks for shifted readers in
  any case, \<open>sameOutcome R\<close> for readers related by \<open>R\<close> when the calls returned
  true.
\<close>

definition sameResult :: "nat \<Rightarrow> (bool \<times> node \<times> ArgReader) outcome \<Rightarrow> (bool \<times> node \<times> ArgReader) outcome \<Rightarrow> bool" where
  "sameResult d = rel_outcome (\<lambda>(ok, f, a) (ok', f', b). ok' = ok \<and> f' = f \<and> shifted d a b)"

text \<open>
  Flags that take a value: a primitive, and a vector whose elements are
  primitives or such vectors.
\<close>

fun consumesValue :: "ftype \<Rightarrow> bool" where
  "consumesValue (TPrim T) = True"
| "consumesValue (TVector g r T) = consumesValue T"
| "consumesValue TSwitch = False"
| "consumesValue (TGroup ds) = False"

fun valueNode :: "node \<Rightarrow> bool" where
  "valueNode (Prim n c T p v) = True"
| "valueNode (Vector n c g r T e vs) = consumesValue T"
| "valueNode (Switch n c p) = False"
| "valueNode (Group n c ms bl bs) = False"

text \<open>
  The same flag given in two ways: the first reader stands on a long flag with
  an attached value (\<^verbatim>\<open>--name=value\<close>); the second stands on the flag alone,
  long with the same name or short (\<^verbatim>\<open>--name\<close>, \<^verbatim>\<open>-n\<close>), and the value is
  its next argument; after that the same arguments follow.
\<close>

definition sameFlagGiven :: "ArgReader \<Rightarrow> ArgReader \<Rightarrow> bool" where
  "sameFlagGiven a b =
     (\<not> flagAbsent a \<and> \<not> flagIsCharacter a \<and> valueSpecified a \<and> charFlags a = []
      \<and> \<not> clearedOut a \<and> position a < argc a
      \<and> \<not> flagAbsent b \<and> \<not> valueSpecified b \<and> charFlags b = [] \<and> \<not> clearedOut b
      \<and> (flagIsCharacter b \<or> key b = key a)
      \<and> position b = position a \<and> argc b = Suc (argc a)
      \<and> drop (Suc (position b)) (argv b) = val a # drop (Suc (position a)) (argv a))"

definition sameOutcome ::
  "(ArgReader \<Rightarrow> ArgReader \<Rightarrow> bool) \<Rightarrow> (bool \<times> node \<times> ArgReader) outcome
     \<Rightarrow> (bool \<times> node \<times> ArgReader) outcome \<Rightarrow> bool" where
  "sameOutcome R = rel_outcome (\<lambda>(ok, f, a) (ok', f', b). ok' = ok \<and> f' = f \<and> (ok \<longrightarrow> R a b))"

text \<open>
  A group with these members and indices looks both tokens up to the same
  member, and that member takes a value.
\<close>

definition dispatchesValue ::
  "node list \<Rightarrow> (string \<times> nat) list \<Rightarrow> (char \<times> nat) list \<Rightarrow> ArgReader \<Rightarrow> ArgReader \<Rightarrow> bool" where
  "dispatchesValue ms bl bs a b =
     ((if flagIsCharacter b then map_of bs (charKey b) else map_of bl (key b)) = map_of bl (key a)
      \<and> (case map_of bl (key a) of None \<Rightarrow> True | Some i \<Rightarrow> i < length ms \<longrightarrow> valueNode (ms ! i)))"

text \<open>
  The flag \<open>name\<close> with its value in the next argument: \<^verbatim>\<open>--name\<close>, or \<^verbatim>\<open>-s\<close>
  when the short name \<open>s\<close> is used.
\<close>

definition tokenOf :: "string \<Rightarrow> char option \<Rightarrow> string" where
  "tokenOf name sh = (case sh of None \<Rightarrow> ''--'' @ name | Some s \<Rightarrow> [CHR ''-'', s])"

text \<open>
  What makes \<open>name\<close>, and \<open>s\<close> with it, the name of a flag that takes a value,
  read off the tree.
  \<^item> \<open>dispatchOK\<close>: a group looks both tokens up to the same member, and that
    member takes a value.
  \<^item> \<open>notOwn\<close>: the group does not bear the name itself.
  \<^item> \<open>valueFlagHere\<close>: a node called with the token as its current token hands
    it to a flag that takes a value: a primitive does, a switch does not, a
    vector lets a fresh element flag decide, a group dispatches it.
  \<^item> \<open>sameNames\<close>: \<^verbatim>\<open>hasFlag\<close> answers for the short name as for the long one.
  \<^item> \<open>valueFlagWithin\<close>: the same throughout a tree that is entered before the
    token is reached: every group dispatches the token to a flag that takes a
    value, and a greedy reentrant vector that calls itself again on the token
    has an element flag that takes it.
\<close>

definition dispatchOK ::
  "string \<Rightarrow> char option \<Rightarrow> node list \<Rightarrow> (string \<times> nat) list \<Rightarrow> (char \<times> nat) list \<Rightarrow> bool" where
  "dispatchOK name sh ms bl bs =
     ((case sh of None \<Rightarrow> True | Some s \<Rightarrow> map_of bs s = map_of bl name)
      \<and> (case map_of bl name of
            None \<Rightarrow> True
          | Some i \<Rightarrow> if i < length ms then valueNode (ms ! i) else True))"

definition notOwn :: "string \<Rightarrow> char option \<Rightarrow> string \<Rightarrow> char \<Rightarrow> bool" where
  "notOwn name sh n c =
     (\<not> (n \<noteq> [] \<and> n = name)
      \<and> (case sh of None \<Rightarrow> True | Some s \<Rightarrow> \<not> (c \<noteq> CHR 0x00 \<and> c = s)))"

function valueFlagHere :: "string \<Rightarrow> char option \<Rightarrow> node \<Rightarrow> bool" where
  "valueFlagHere name sh (Prim n c T p v) = True"
| "valueFlagHere name sh (Switch n c p) = False"
| "valueFlagHere name sh (Vector n c g r T e vs) = valueFlagHere name sh (instantiate T n c)"
| "valueFlagHere name sh (Group n c ms bl bs) = (notOwn name sh n c \<and> dispatchOK name sh ms bl bs)"
  by pat_completeness auto
termination
  by (relation "measure (\<lambda>(name, sh, f). nsize f)") (auto simp: nsize_instantiate)

definition sameNames :: "string \<Rightarrow> char option \<Rightarrow> node \<Rightarrow> bool" where
  "sameNames name sh f = (case sh of None \<Rightarrow> True | Some s \<Rightarrow> hasFlagS f s = hasFlagL f name)"

function valueFlagWithin :: "string \<Rightarrow> char option \<Rightarrow> node \<Rightarrow> bool" where
  "valueFlagWithin name sh (Prim n c T p v) = True"
| "valueFlagWithin name sh (Switch n c p) = True"
| "valueFlagWithin name sh (Vector n c g r T e vs) =
     (valueFlagWithin name sh (instantiate T n c)
      \<and> (if g \<and> r
         then sameNames name sh (instantiate T n c)
              \<and> (if hasFlagL (instantiate T n c) name
                 then valueFlagHere name sh (instantiate T n c) else True)
         else True))"
| "valueFlagWithin name sh (Group n c ms bl bs) =
     (list_all (valueFlagWithin name sh) ms \<and> dispatchOK name sh ms bl bs)"
  by pat_completeness auto
termination
  by (relation "measure (\<lambda>(name, sh, f). nsize f)")
     (auto simp: nsize_instantiate nsize_member)

text \<open>
  \<open>cutAt t a\<close> is the reader \<open>a\<close> over the first \<open>t\<close> arguments alone. A call of
  \<^verbatim>\<open>nextRawArgument\<close> that takes argument \<open>t\<close> as a raw value reads past the end
  of the cut list.
\<close>

definition cutAt :: "nat \<Rightarrow> ArgReader \<Rightarrow> ArgReader" where
  "cutAt t a = a\<lparr>argc := t, argv := take t (argv a)\<rparr>"

text \<open>
  Two argument lists that differ in one place: at index \<open>t\<close> the first has
  \<^verbatim>\<open>--name=v\<close>, the second has the flag alone and then \<open>v\<close>.
\<close>

definition tokenLists ::
  "string \<Rightarrow> char option \<Rightarrow> string \<Rightarrow> nat \<Rightarrow> string list \<Rightarrow> string list \<Rightarrow> bool" where
  "tokenLists name sh v t A B =
     (CHR ''='' \<notin> set name \<and> sh \<noteq> Some (CHR ''-'') \<and> t < length A \<and> take t B = take t A
      \<and> A ! t = ''--'' @ name @ ''='' @ v
      \<and> drop t B = tokenOf name sh # v # drop (Suc t) A)"

text \<open>
  Two readers over such lists, in step. Before the place they stand on the
  same token at the same position, with the same short flags pending; at the
  place the first stands on \<^verbatim>\<open>--name=v\<close> and the second on the flag alone;
  after it the second is one argument further. \<open>followedBy t ra rq\<close>: a call that
  returned true before argument \<open>t\<close> has returned the same over the cut list.
\<close>

definition beforeToken :: "string list \<Rightarrow> string list \<Rightarrow> nat \<Rightarrow> ArgReader \<Rightarrow> ArgReader \<Rightarrow> bool" where
  "beforeToken A B t a b =
     (argv a = A \<and> argc a = length A \<and> argv b = B \<and> argc b = length B
      \<and> position a < t \<and> position b = position a \<and> \<not> clearedOut a \<and> \<not> clearedOut b
      \<and> charKey b = charKey a \<and> key b = key a \<and> val b = val a \<and> flagAbsent b = flagAbsent a
      \<and> flagIsCharacter b = flagIsCharacter a \<and> valueSpecified b = valueSpecified a
      \<and> charFlags b = charFlags a)"

definition onToken :: "string \<Rightarrow> char option \<Rightarrow> nat \<Rightarrow> ArgReader \<Rightarrow> ArgReader \<Rightarrow> bool" where
  "onToken name sh t a b =
     (sameFlagGiven a b \<and> position a = t \<and> key a = name
      \<and> (case sh of None \<Rightarrow> \<not> flagIsCharacter b | Some s \<Rightarrow> flagIsCharacter b \<and> charKey b = s))"

definition afterToken :: "nat \<Rightarrow> ArgReader \<Rightarrow> ArgReader \<Rightarrow> bool" where
  "afterToken t a b = (shifted 1 a b \<and> t < position a)"

definition inStep ::
  "string \<Rightarrow> char option \<Rightarrow> string list \<Rightarrow> string list \<Rightarrow> nat \<Rightarrow> ArgReader \<Rightarrow> ArgReader \<Rightarrow> bool" where
  "inStep name sh A B t a b =
     (beforeToken A B t a b \<or> onToken name sh t a b \<or> afterToken t a b)"

definition followedBy ::
  "nat \<Rightarrow> (bool \<times> node \<times> ArgReader) outcome \<Rightarrow> (bool \<times> node \<times> ArgReader) outcome \<Rightarrow> bool" where
  "followedBy t ra rq =
     (case ra of
        Ret (ok, f, a) \<Rightarrow> if ok \<and> position a < t then rq = Ret (True, f, cutAt t a) else True
      | UB \<Rightarrow> True
      | OutOfFuel \<Rightarrow> True)"

text \<open>
  \<open>refusesAsValue ta tb f\<close>: no primitive flag of the tree parses \<open>ta\<close> or \<open>tb\<close> as
  its value: \<^verbatim>\<open>ParseType\<close> of its type fails on both. A switch reads no raw
  value, a vector reads one through its element, a group through its members.
\<close>

function refusesAsValue :: "string \<Rightarrow> string \<Rightarrow> node \<Rightarrow> bool" where
  "refusesAsValue ta tb (Prim n c T p v) = (ParseType T ta = None \<and> ParseType T tb = None)"
| "refusesAsValue ta tb (Switch n c p) = True"
| "refusesAsValue ta tb (Vector n c g r T e vs) = refusesAsValue ta tb (instantiate T n c)"
| "refusesAsValue ta tb (Group n c ms bl bs) = list_all (refusesAsValue ta tb) ms"
  by pat_completeness auto
termination
  by (relation "measure (\<lambda>(ta, tb, f). nsize f)")
     (auto simp: nsize_instantiate nsize_member)

text \<open>The argument list of scenario A with \<^verbatim>\<open>--alive true\<close> for \<^verbatim>\<open>--alive=true\<close>.\<close>

definition argvA2 :: "string list" where
  "argvA2 = [''prog'', ''--alive'', ''true'', ''--param'', ''20'', ''--ind=10'', ''--ind'', ''11'']"

section \<open>Properties\<close>

subsection \<open>The recursion budget\<close>

text \<open>
  A call that returns within a budget returns the same with any larger one, so
  a result obtained with some budget is the result of the program.
\<close>

lemma fuel_Suc_both:
  "(\<forall>f ar. parseArgsR k f ar \<noteq> OutOfFuel \<longrightarrow> parseArgsR (Suc k) f ar = parseArgsR k f ar)
   \<and> (\<forall>n c ms bl bs ar. groupLoop k n c ms bl bs ar \<noteq> OutOfFuel \<longrightarrow>
         groupLoop (Suc k) n c ms bl bs ar = groupLoop k n c ms bl bs ar)"
proof (induction k)
  case 0
  show ?case by simp
next
  case (Suc k)
  then have IHp: "\<And>f ar. parseArgsR k f ar \<noteq> OutOfFuel \<Longrightarrow> parseArgsR (Suc k) f ar = parseArgsR k f ar"
    and IHg: "\<And>n c ms bl bs ar. groupLoop k n c ms bl bs ar \<noteq> OutOfFuel \<Longrightarrow>
         groupLoop (Suc k) n c ms bl bs ar = groupLoop k n c ms bl bs ar"
    by blast+
  have P: "parseArgsR (Suc (Suc k)) f ar = parseArgsR (Suc k) f ar"
    if ne: "parseArgsR (Suc k) f ar \<noteq> OutOfFuel" for f ar
  proof (cases f)
    case (Prim n c T p v)
    then show ?thesis by simp
  next
    case (Switch n c p)
    then show ?thesis by simp
  next
    case (Vector n c g r T e vs)
    show ?thesis
    proof (cases "parseArgsR k (instantiate T n c) ar")
      case OutOfFuel
      with ne Vector show ?thesis by simp
    next
      case UB
      then have "parseArgsR (Suc k) (instantiate T n c) ar = UB" using IHp by simp
      with UB Vector show ?thesis by simp
    next
      case (Ret x)
      obtain ok flag ar' where x: "x = (ok, flag, ar')" by (cases x) auto
      have s: "parseArgsR (Suc k) (instantiate T n c) ar = Ret (ok, flag, ar')"
        using IHp Ret x by simp
      show ?thesis
      proof (cases "ok \<and> tell ar \<noteq> tell ar' \<and> g \<and> (\<not> hasAnyFlag ar' \<or> canReenter r ar' flag)")
        case True
        then have "parseArgsR k (Vector n c g r T True (vs @ [flag])) ar' \<noteq> OutOfFuel"
          using ne Vector Ret x by simp
        then have "parseArgsR (Suc k) (Vector n c g r T True (vs @ [flag])) ar'
           = parseArgsR k (Vector n c g r T True (vs @ [flag])) ar'" by (rule IHp)
        with True show ?thesis using Vector Ret x s by simp
      next
        case False
        then show ?thesis using Vector Ret x s by auto
      qed
    qed
  next
    case (Group n c ms bl bs)
    show ?thesis
    proof (cases "hasLongFlag ar = hasShortFlag ar")
      case True
      then show ?thesis using Group by simp
    next
      case False
      show ?thesis
      proof (cases "ownName n c ar")
        case True
        show ?thesis
        proof (cases "parseNextArg ar")
          case (Ret ar')
          then have "groupLoop k n c ms bl bs ar' \<noteq> OutOfFuel"
            using ne Group False True by simp
          then show ?thesis using Group False True Ret IHg by simp
        qed (use Group False True in simp_all)
      next
        case no: False
        then have "groupLoop k n c ms bl bs ar \<noteq> OutOfFuel"
          using ne Group False by simp
        then show ?thesis using Group False no IHg by simp
      qed
    qed
  qed
  have G: "groupLoop (Suc (Suc k)) n c ms bl bs ar = groupLoop (Suc k) n c ms bl bs ar"
    if ne: "groupLoop (Suc k) n c ms bl bs ar \<noteq> OutOfFuel" for n c ms bl bs ar
  proof -
    have step: "(case parseArgsR (Suc k) m ar of
                  Ret (ok, m', ar') \<Rightarrow> if \<not> ok then A ok m' ar' else if B ok m' ar' then C ok m' ar'
                     else groupLoop (Suc k) n c (ms[i := m']) bl bs ar'
                | UB \<Rightarrow> UB | OutOfFuel \<Rightarrow> OutOfFuel)
              = (case parseArgsR k m ar of
                  Ret (ok, m', ar') \<Rightarrow> if \<not> ok then A ok m' ar' else if B ok m' ar' then C ok m' ar'
                     else groupLoop k n c (ms[i := m']) bl bs ar'
                | UB \<Rightarrow> UB | OutOfFuel \<Rightarrow> OutOfFuel)"
      if "(case parseArgsR k m ar of
                  Ret (ok, m', ar') \<Rightarrow> if \<not> ok then A ok m' ar' else if B ok m' ar' then C ok m' ar'
                     else groupLoop k n c (ms[i := m']) bl bs ar'
                | UB \<Rightarrow> UB | OutOfFuel \<Rightarrow> OutOfFuel) \<noteq> OutOfFuel"
      for m i A B C
    proof (cases "parseArgsR k m ar")
      case OutOfFuel
      with that show ?thesis by simp
    next
      case UB
      then have "parseArgsR (Suc k) m ar = UB" using IHp by simp
      with UB show ?thesis by simp
    next
      case (Ret x)
      obtain ok m' ar' where x: "x = (ok, m', ar')" by (cases x) auto
      have s: "parseArgsR (Suc k) m ar = Ret (ok, m', ar')" using IHp Ret x by simp
      show ?thesis
      proof (cases "ok \<and> \<not> B ok m' ar'")
        case True
        then have "groupLoop k n c (ms[i := m']) bl bs ar' \<noteq> OutOfFuel"
          using that Ret x by auto
        then show ?thesis using True Ret x s IHg by auto
      next
        case False
        then show ?thesis using Ret x s by auto
      qed
    qed
    have step2: "(case parseArgsR (Suc k) m ar of
                  Ret (ok, m', ar') \<Rightarrow> if \<not> ok then A ok m' ar' else groupLoop (Suc k) n c (ms[i := m']) bl bs ar'
                | UB \<Rightarrow> UB | OutOfFuel \<Rightarrow> OutOfFuel)
              = (case parseArgsR k m ar of
                  Ret (ok, m', ar') \<Rightarrow> if \<not> ok then A ok m' ar' else groupLoop k n c (ms[i := m']) bl bs ar'
                | UB \<Rightarrow> UB | OutOfFuel \<Rightarrow> OutOfFuel)"
      if "(case parseArgsR k m ar of
                  Ret (ok, m', ar') \<Rightarrow> if \<not> ok then A ok m' ar' else groupLoop k n c (ms[i := m']) bl bs ar'
                | UB \<Rightarrow> UB | OutOfFuel \<Rightarrow> OutOfFuel) \<noteq> OutOfFuel"
      for m i A
    proof (cases "parseArgsR k m ar")
      case OutOfFuel
      with that show ?thesis by simp
    next
      case UB
      then have "parseArgsR (Suc k) m ar = UB" using IHp by simp
      with UB show ?thesis by simp
    next
      case (Ret x)
      obtain ok m' ar' where x: "x = (ok, m', ar')" by (cases x) auto
      have s: "parseArgsR (Suc k) m ar = Ret (ok, m', ar')" using IHp Ret x by simp
      show ?thesis
      proof (cases "ok")
        case True
        then have "groupLoop k n c (ms[i := m']) bl bs ar' \<noteq> OutOfFuel"
          using that Ret x by auto
        then show ?thesis using True Ret x s IHg by auto
      next
        case False
        then show ?thesis using Ret x s by auto
      qed
    qed
    show ?thesis
    proof (cases "atEnd ar")
      case True
      then show ?thesis by simp
    next
      case nend: False
      show ?thesis
      proof (cases "hasLongFlag ar")
        case True
        show ?thesis
        proof (cases "map_of bl (getLongFlag ar)")
          case None
          then show ?thesis using nend True by simp
        next
          case (Some i)
          show ?thesis
          proof (cases "i \<ge> length ms \<or> atCapacity (ms ! i)")
            case True
            then show ?thesis using nend \<open>hasLongFlag ar\<close> Some by auto
          next
            case False
            from ne have "(case parseArgsR k (ms ! i) ar of
                  Ret (ok, m', ar') \<Rightarrow> if \<not> ok then Ret (False, Group n c (ms[i := m']) bl bs, ar')
                     else if tell ar' = tell ar then Ret (True, Group n c (ms[i := m']) bl bs, ar')
                     else groupLoop k n c (ms[i := m']) bl bs ar'
                | UB \<Rightarrow> UB | OutOfFuel \<Rightarrow> OutOfFuel) \<noteq> OutOfFuel"
              using nend True Some False by simp
            from step[where m = "ms ! i" and A = "\<lambda>ok m' ar'. Ret (False, Group n c (ms[i := m']) bl bs, ar')"
                  and B = "\<lambda>ok m' ar'. tell ar' = tell ar"
                  and C = "\<lambda>ok m' ar'. Ret (True, Group n c (ms[i := m']) bl bs, ar')" and i = i, OF this]
            show ?thesis using nend True Some False by simp
          qed
        qed
      next
        case sh: False
        show ?thesis
        proof (cases "map_of bs (getShortFlag ar)")
          case None
          then show ?thesis using nend sh by simp
        next
          case (Some i)
          show ?thesis
          proof (cases "i \<ge> length ms \<or> atCapacity (ms ! i)")
            case True
            then show ?thesis using nend sh Some by auto
          next
            case False
            from ne have "(case parseArgsR k (ms ! i) ar of
                  Ret (ok, m', ar') \<Rightarrow> if \<not> ok then Ret (False, Group n c (ms[i := m']) bl bs, ar')
                     else groupLoop k n c (ms[i := m']) bl bs ar'
                | UB \<Rightarrow> UB | OutOfFuel \<Rightarrow> OutOfFuel) \<noteq> OutOfFuel"
              using nend sh Some False by simp
            from step2[where m = "ms ! i" and A = "\<lambda>ok m' ar'. Ret (False, Group n c (ms[i := m']) bl bs, ar')"
                  and i = i, OF this]
            show ?thesis using nend sh Some False by simp
          qed
        qed
      qed
    qed
  qed
  from P G show ?case by blast
qed

lemma parseArgsR_fuel:
  "parseArgsR k f ar \<noteq> OutOfFuel \<Longrightarrow> parseArgsR (k + j) f ar = parseArgsR k f ar"
proof (induction j)
  case 0
  show ?case by simp
next
  case (Suc j)
  then have "parseArgsR (k + j) f ar \<noteq> OutOfFuel" by simp
  then have "parseArgsR (Suc (k + j)) f ar = parseArgsR (k + j) f ar"
    using fuel_Suc_both by blast
  with Suc show ?case by simp
qed

lemma parseArgs_fuel:
  assumes "parseArgs k f a v \<noteq> OutOfFuel"
  shows "parseArgs (k + j) f a v = parseArgs k f a v"
proof (cases "a < 2")
  case True
  then show ?thesis by (simp add: parseArgs_def)
next
  case False
  show ?thesis
  proof (cases "parseNextArg (newArgReader a v)")
    case (Ret ar)
    with assms False have "parseArgsR k f ar \<noteq> OutOfFuel"
      by (auto simp: parseArgs_def)
    then have "parseArgsR (k + j) f ar = parseArgsR k f ar" by (rule parseArgsR_fuel)
    with Ret False show ?thesis by (simp add: parseArgs_def)
  qed (use False in \<open>simp_all add: parseArgs_def\<close>)
qed

subsection \<open>What a parse may change in a tree\<close>

lemma evolvesAll_refl: "(\<And>m. m \<in> set ms \<Longrightarrow> evolves m m) \<Longrightarrow> evolvesAll ms ms"
  by (induction ms) simp_all

lemma evolves_refl: "evolves f f"
  by (induction f) (simp_all add: evolvesAll_refl)

lemma evolvesAll_length: "evolvesAll ms ms' \<Longrightarrow> length ms' = length ms"
proof (induction ms arbitrary: ms')
  case Nil
  then show ?case by (cases ms') simp_all
next
  case (Cons m ms)
  then show ?case by (cases ms') simp_all
qed

lemma evolvesAll_nth: "evolvesAll ms ms' \<Longrightarrow> i < length ms \<Longrightarrow> evolves (ms ! i) (ms' ! i)"
proof (induction ms arbitrary: ms' i)
  case Nil
  then show ?case by simp
next
  case (Cons m ms)
  then show ?case by (cases ms'; cases i) simp_all
qed

lemma evolvesAll_update:
  "i < length ms \<Longrightarrow> evolves (ms ! i) m \<Longrightarrow> evolvesAll ms (ms[i := m])"
  by (induction ms arbitrary: i) (auto simp: evolves_refl evolvesAll_refl nth_Cons split: nat.splits)

lemma evolves_trans:
  "evolves a b \<Longrightarrow> evolves b d \<Longrightarrow> evolves a d"
  "evolvesAll as bs \<Longrightarrow> evolvesAll bs ds \<Longrightarrow> evolvesAll as ds"
proof (induction a b and as bs arbitrary: d and ds rule: evolves_evolvesAll.induct)
  case (1 n c T p v n' c' T' p' v')
  then show ?case by (cases d) auto
next
  case (2 n c p n' c' p')
  then show ?case by (cases d) auto
next
  case (3 n c g r T e vs n' c' g' r' T' e' vs')
  then show ?case
  proof (cases d)
    case (Vector n2 c2 g2 r2 T2 e2 vs2)
    with 3 have "take (length vs') vs2 = vs'" "take (length vs) vs' = vs" by auto
    then have "take (length vs) vs2 = vs"
      by (metis length_take take_take)
    with 3 Vector show ?thesis by auto
  qed auto
next
  case (4 n c ms bl bs n' c' ms' bl' bs')
  then show ?case by (cases d) auto
next
  case (7 m ms m' ms')
  then show ?case by (cases ds) auto
qed (auto)


lemma parseSingleton_evolves:
  "parseSingleton n c T p v ar = Ret (ok, f', ar') \<Longrightarrow> evolves (Prim n c T p v) f'"
  by (auto simp: parseSingleton_def split: if_splits option.splits outcome.splits prod.splits)

lemma parseSwitch_evolves:
  "parseSwitch n c p ar = Ret (ok, f', ar') \<Longrightarrow> evolves (Switch n c p) f'"
  by (auto simp: parseSwitch_def split: if_splits outcome.splits)

lemma parse_evolves_both:
  "(\<forall>f ar ok f' ar'. parseArgsR k f ar = Ret (ok, f', ar') \<longrightarrow> evolves f f')
   \<and> (\<forall>n c ms bl bs ar ok f' ar'. groupLoop k n c ms bl bs ar = Ret (ok, f', ar') \<longrightarrow>
         evolves (Group n c ms bl bs) f')"
proof (induction k)
  case 0
  show ?case by simp
next
  case (Suc k)
  then have IHp: "\<And>f ar ok f' ar'. parseArgsR k f ar = Ret (ok, f', ar') \<Longrightarrow> evolves f f'"
    and IHg: "\<And>n c ms bl bs ar ok f' ar'. groupLoop k n c ms bl bs ar = Ret (ok, f', ar') \<Longrightarrow>
         evolves (Group n c ms bl bs) f'"
    by blast+
  have P: "evolves f f'" if r: "parseArgsR (Suc k) f ar = Ret (ok, f', ar')" for f ar ok f' ar'
  proof (cases f)
    case (Prim n c T p v)
    with r show ?thesis by (simp add: parseSingleton_evolves)
  next
    case (Switch n c p)
    with r show ?thesis by (simp add: parseSwitch_evolves)
  next
    case (Vector n c g re T e vs)
    show ?thesis
    proof (cases "parseArgsR k (instantiate T n c) ar")
      case (Ret x)
      obtain ok1 flag ar1 where x: "x = (ok1, flag, ar1)" by (cases x) auto
      show ?thesis
      proof (cases "ok1 \<and> tell ar \<noteq> tell ar1 \<and> g \<and> (\<not> hasAnyFlag ar1 \<or> canReenter re ar1 flag)")
        case True
        then have "parseArgsR k (Vector n c g re T True (vs @ [flag])) ar1 = Ret (ok, f', ar')"
          using r Vector Ret x by simp
        then have "evolves (Vector n c g re T True (vs @ [flag])) f'" by (rule IHp)
        moreover have "evolves (Vector n c g re T e vs) (Vector n c g re T True (vs @ [flag]))"
          by simp
        ultimately show ?thesis unfolding Vector by (rule evolves_trans(1)[rotated])
      next
        case False
        then show ?thesis using r Vector Ret x by (auto split: if_splits)
      qed
    qed (use r Vector in simp_all)
  next
    case (Group n c ms bl bs)
    show ?thesis
    proof (cases "hasLongFlag ar = hasShortFlag ar")
      case True
      then show ?thesis using Group r by (auto simp: evolves_refl)
    next
      case False
      show ?thesis
      proof (cases "ownName n c ar")
        case True
        show ?thesis
        proof (cases "parseNextArg ar")
          case (Ret ar1)
          then have "groupLoop k n c ms bl bs ar1 = Ret (ok, f', ar')"
            using r Group False True by simp
          then show ?thesis unfolding Group by (rule IHg)
        qed (use r Group False True in simp_all)
      next
        case no: False
        then have "groupLoop k n c ms bl bs ar = Ret (ok, f', ar')"
          using r Group False by simp
        then show ?thesis unfolding Group by (rule IHg)
      qed
    qed
  qed
  have G: "evolves (Group n c ms bl bs) f'"
    if r: "groupLoop (Suc k) n c ms bl bs ar = Ret (ok, f', ar')" for n c ms bl bs ar ok f' ar'
  proof -
    have same: "evolves (Group n c ms bl bs) (Group n c ms bl bs)" by (rule evolves_refl)
    have member: "evolves (Group n c ms bl bs) f'"
      if i: "i < length ms"
        and m: "parseArgsR k (ms ! i) ar = Ret (ok1, m, ar1)"
        and rest: "f' = Group n c (ms[i := m]) bl bs \<or> groupLoop k n c (ms[i := m]) bl bs ar1 = Ret (ok, f', ar')"
      for i ok1 m ar1
    proof -
      have "evolves (ms ! i) m" using m by (rule IHp)
      then have 1: "evolves (Group n c ms bl bs) (Group n c (ms[i := m]) bl bs)"
        using i by (simp add: evolvesAll_update)
      from rest show ?thesis
      proof
        assume "f' = Group n c (ms[i := m]) bl bs"
        with 1 show ?thesis by simp
      next
        assume "groupLoop k n c (ms[i := m]) bl bs ar1 = Ret (ok, f', ar')"
        then have "evolves (Group n c (ms[i := m]) bl bs) f'" by (rule IHg)
        with 1 show ?thesis by (rule evolves_trans(1))
      qed
    qed
    show ?thesis
    proof (cases "atEnd ar")
      case True
      then show ?thesis using r same by auto
    next
      case nend: False
      show ?thesis
      proof (cases "hasLongFlag ar")
        case True
        show ?thesis
        proof (cases "map_of bl (getLongFlag ar)")
          case None
          then show ?thesis using r nend True same by auto
        next
          case (Some i)
          show ?thesis
          proof (cases "i \<ge> length ms \<or> atCapacity (ms ! i)")
            case True
            then show ?thesis using r nend \<open>hasLongFlag ar\<close> Some same by (auto split: if_splits)
          next
            case False
            show ?thesis
            proof (cases "parseArgsR k (ms ! i) ar")
              case (Ret x)
              obtain ok1 m ar1 where x: "x = (ok1, m, ar1)" by (cases x) auto
              have "f' = Group n c (ms[i := m]) bl bs \<or> groupLoop k n c (ms[i := m]) bl bs ar1 = Ret (ok, f', ar')"
                using r nend True Some False Ret x by (auto split: if_splits)
              with member[of i ok1 m ar1] False Ret x show ?thesis by simp
            qed (use r nend True Some False in simp_all)
          qed
        qed
      next
        case sh: False
        show ?thesis
        proof (cases "map_of bs (getShortFlag ar)")
          case None
          then show ?thesis using r nend sh same by auto
        next
          case (Some i)
          show ?thesis
          proof (cases "i \<ge> length ms \<or> atCapacity (ms ! i)")
            case True
            then show ?thesis using r nend sh Some same by (auto split: if_splits)
          next
            case False
            show ?thesis
            proof (cases "parseArgsR k (ms ! i) ar")
              case (Ret x)
              obtain ok1 m ar1 where x: "x = (ok1, m, ar1)" by (cases x) auto
              have "f' = Group n c (ms[i := m]) bl bs \<or> groupLoop k n c (ms[i := m]) bl bs ar1 = Ret (ok, f', ar')"
                using r nend sh Some False Ret x by (auto split: if_splits)
              with member[of i ok1 m ar1] False Ret x show ?thesis by simp
            qed (use r nend sh Some False in simp_all)
          qed
        qed
      qed
    qed
  qed
  from P G show ?case by blast
qed

lemma parseArgsR_evolves: "parseArgsR k f ar = Ret (ok, f', ar') \<Longrightarrow> evolves f f'"
  using parse_evolves_both by blast

lemma evolves_atCapacity:
  "evolves f f' \<Longrightarrow> atCapacity f \<Longrightarrow> atCapacity f'"
  "evolvesAll ms ms' \<Longrightarrow> list_all atCapacity ms \<Longrightarrow> list_all atCapacity ms'"
  by (induction f f' and ms ms' rule: evolves_evolvesAll.induct) auto

lemma evolves_hasFlagL:
  "evolves f f' \<Longrightarrow> hasFlagL f' name = hasFlagL f name"
  "evolvesAll ms ms' \<Longrightarrow> list_ex (\<lambda>m. hasFlagL m name) ms' = list_ex (\<lambda>m. hasFlagL m name) ms"
  by (induction f f' and ms ms' rule: evolves_evolvesAll.induct) auto

lemma evolves_hasFlagS:
  "evolves f f' \<Longrightarrow> hasFlagS f' name = hasFlagS f name"
  "evolvesAll ms ms' \<Longrightarrow> list_ex (\<lambda>m. hasFlagS m name) ms' = list_ex (\<lambda>m. hasFlagS m name) ms"
  by (induction f f' and ms ms' rule: evolves_evolvesAll.induct) auto

lemma pristine_foldl_addFlag:
  "pristine (foldl addFlag (Group n c ms bl bs) xs) = list_all pristine (ms @ xs)"
  by (induction xs arbitrary: ms bl bs) simp_all

lemma pristine_instantiate:
  "pristine (instantiate T n c)"
  "pristine (instantiateDecl d)"
  "list_all pristine (instantiateAll ds)"
  by (induction T n c and d and ds rule: instantiate_instantiateDecl_instantiateAll.induct)
     (simp_all add: pristine_foldl_addFlag)

subsection \<open>The position of the reader\<close>

lemma parseNextArg_position: "parseNextArg a = Ret a' \<Longrightarrow> position a \<le> position a'"
  by (auto simp: parseNextArg_def Let_def split: list.splits if_splits)

lemma nextRawArgument_position: "nextRawArgument a = Ret (s, a') \<Longrightarrow> position a \<le> position a'"
  by (auto simp: nextRawArgument_def Let_def split: if_splits)

lemma parseSingleton_position:
  assumes "parseSingleton n c T p v a = Ret (ok, f', a')"
  shows "position a \<le> position a'"
proof (cases "hasValue a")
  case True
  show ?thesis
  proof (cases "ParseType T (getValue a)")
    case None
    with True assms show ?thesis by (simp add: parseSingleton_def)
  next
    case (Some v')
    with True assms obtain a1 where "parseNextArg a = Ret a1" "a' = a1"
      by (auto simp: parseSingleton_def split: outcome.splits)
    then show ?thesis using parseNextArg_position by blast
  qed
next
  case False
  show ?thesis
  proof (cases "hasMoreArguments a")
    case no: False
    with False assms show ?thesis by (simp add: parseSingleton_def)
  next
    case True
    with False assms obtain raw a1 where n: "nextRawArgument a = Ret (raw, a1)"
      by (auto simp: parseSingleton_def split: outcome.splits)
    have 1: "position a \<le> position a1" using n by (rule nextRawArgument_position)
    show ?thesis
    proof (cases "ParseType T raw")
      case None
      with False True n assms 1 show ?thesis by (simp add: parseSingleton_def)
    next
      case (Some v')
      with False True n assms obtain a2 where "parseNextArg a1 = Ret a2" "a' = a2"
        by (auto simp: parseSingleton_def split: outcome.splits)
      then show ?thesis using parseNextArg_position 1 by fastforce
    qed
  qed
qed

lemma parseSwitch_position:
  "parseSwitch n c p a = Ret (ok, f', a') \<Longrightarrow> position a \<le> position a'"
  by (auto simp: parseSwitch_def parseNextArg_position split: if_splits outcome.splits)

lemma position_mono_both:
  "(\<forall>f a ok f' a'. parseArgsR k f a = Ret (ok, f', a') \<longrightarrow> position a \<le> position a')
   \<and> (\<forall>n c ms bl bs a ok f' a'. groupLoop k n c ms bl bs a = Ret (ok, f', a') \<longrightarrow>
         position a \<le> position a')"
proof (induction k)
  case 0
  show ?case by simp
next
  case (Suc k)
  then have IHp: "\<And>f a ok f' a'. parseArgsR k f a = Ret (ok, f', a') \<Longrightarrow> position a \<le> position a'"
    and IHg: "\<And>n c ms bl bs a ok f' a'. groupLoop k n c ms bl bs a = Ret (ok, f', a') \<Longrightarrow>
         position a \<le> position a'"
    by blast+
  have P: "position a \<le> position a'" if r: "parseArgsR (Suc k) f a = Ret (ok, f', a')" for f a ok f' a'
  proof (cases f)
    case (Prim n c T p v)
    with r show ?thesis by (simp add: parseSingleton_position)
  next
    case (Switch n c p)
    with r show ?thesis by (simp add: parseSwitch_position)
  next
    case (Vector n c g re T e vs)
    show ?thesis
    proof (cases "parseArgsR k (instantiate T n c) a")
      case (Ret x)
      obtain ok1 flag a1 where x: "x = (ok1, flag, a1)" by (cases x) auto
      have 1: "position a \<le> position a1" using Ret x IHp by blast
      show ?thesis
      proof (cases "ok1 \<and> tell a \<noteq> tell a1 \<and> g \<and> (\<not> hasAnyFlag a1 \<or> canReenter re a1 flag)")
        case True
        then have "parseArgsR k (Vector n c g re T True (vs @ [flag])) a1 = Ret (ok, f', a')"
          using r Vector Ret x by simp
        then have "position a1 \<le> position a'" by (rule IHp)
        with 1 show ?thesis by simp
      next
        case False
        then have "a' = a1" using r Vector Ret x by (auto split: if_splits)
        with 1 show ?thesis by simp
      qed
    qed (use r Vector in simp_all)
  next
    case (Group n c ms bl bs)
    show ?thesis
    proof (cases "hasLongFlag a = hasShortFlag a")
      case True
      then show ?thesis using Group r by auto
    next
      case False
      show ?thesis
      proof (cases "ownName n c a")
        case True
        show ?thesis
        proof (cases "parseNextArg a")
          case (Ret a1)
          then have "groupLoop k n c ms bl bs a1 = Ret (ok, f', a')"
            using r Group False True by simp
          then have "position a1 \<le> position a'" by (rule IHg)
          with parseNextArg_position[OF Ret] show ?thesis by simp
        qed (use r Group False True in simp_all)
      next
        case no: False
        then have "groupLoop k n c ms bl bs a = Ret (ok, f', a')"
          using r Group False by simp
        then show ?thesis by (rule IHg)
      qed
    qed
  qed
  have G: "position a \<le> position a'"
    if r: "groupLoop (Suc k) n c ms bl bs a = Ret (ok, f', a')" for n c ms bl bs a ok f' a'
  proof -
    have member: "position a \<le> position a'"
      if m: "parseArgsR k (ms ! i) a = Ret (ok1, m, a1)"
        and rest: "a' = a1 \<or> groupLoop k n c (ms[i := m]) bl bs a1 = Ret (ok, f', a')"
      for i ok1 m a1
    proof -
      have 1: "position a \<le> position a1" using m by (rule IHp)
      from rest show ?thesis
      proof
        assume "a' = a1"
        with 1 show ?thesis by simp
      next
        assume "groupLoop k n c (ms[i := m]) bl bs a1 = Ret (ok, f', a')"
        then have "position a1 \<le> position a'" by (rule IHg)
        with 1 show ?thesis by simp
      qed
    qed
    show ?thesis
    proof (cases "atEnd a")
      case True
      then show ?thesis using r by auto
    next
      case nend: False
      show ?thesis
      proof (cases "hasLongFlag a")
        case True
        show ?thesis
        proof (cases "map_of bl (getLongFlag a)")
          case None
          then show ?thesis using r nend True by auto
        next
          case (Some i)
          show ?thesis
          proof (cases "i \<ge> length ms \<or> atCapacity (ms ! i)")
            case True
            then show ?thesis using r nend \<open>hasLongFlag a\<close> Some by (auto split: if_splits)
          next
            case False
            show ?thesis
            proof (cases "parseArgsR k (ms ! i) a")
              case (Ret x)
              obtain ok1 m a1 where x: "x = (ok1, m, a1)" by (cases x) auto
              have "a' = a1 \<or> groupLoop k n c (ms[i := m]) bl bs a1 = Ret (ok, f', a')"
                using r nend True Some False Ret x by (auto split: if_splits)
              with member[of i ok1 m a1] Ret x show ?thesis by simp
            qed (use r nend True Some False in simp_all)
          qed
        qed
      next
        case sh: False
        show ?thesis
        proof (cases "map_of bs (getShortFlag a)")
          case None
          then show ?thesis using r nend sh by auto
        next
          case (Some i)
          show ?thesis
          proof (cases "i \<ge> length ms \<or> atCapacity (ms ! i)")
            case True
            then show ?thesis using r nend sh Some by (auto split: if_splits)
          next
            case False
            show ?thesis
            proof (cases "parseArgsR k (ms ! i) a")
              case (Ret x)
              obtain ok1 m a1 where x: "x = (ok1, m, a1)" by (cases x) auto
              have "a' = a1 \<or> groupLoop k n c (ms[i := m]) bl bs a1 = Ret (ok, f', a')"
                using r nend sh Some False Ret x by (auto split: if_splits)
              with member[of i ok1 m a1] Ret x show ?thesis by simp
            qed (use r nend sh Some False in simp_all)
          qed
        qed
      qed
    qed
  qed
  from P G show ?case by blast
qed

lemma position_mono:
  "parseArgsR k f a = Ret (ok, f', a') \<Longrightarrow> position a \<le> position a'"
  "groupLoop k n c ms bl bs a = Ret (ok, f', a') \<Longrightarrow> position a \<le> position a'"
  using position_mono_both by blast+

section \<open>The claims\<close>

subsection \<open>C10: fewer than two arguments\<close>

text \<open>
  C10. For every flag tree and every \<^verbatim>\<open>argc\<close> below 2, zero and the negative
  numbers included, \<^verbatim>\<open>parseArgs(argc, argv)\<close> returns true at once: whatever
  \<^verbatim>\<open>argv\<close> is (it is never read, so not even an empty array is an error) and
  whatever the budget, the tree comes back as it was. A freshly constructed tree
  is pristine, so after the call no primitive or switch is present and every
  vector is empty.
\<close>

theorem parseArgs_fewer_than_two_arguments:
  assumes "a < 2"
  shows "parseArgs fuel (instantiate T n c) a v = Ret (True, instantiate T n c)
         \<and> pristine (instantiate T n c)
         \<and> (\<forall>f. parseArgs fuel f a v = Ret (True, f))"
  using assms by (simp add: parseArgs_def pristine_instantiate)

theorem parseArgs_fewer_than_two_arguments_witness:
  "parseArgs 0 scenarioA (- 3) [] = Ret (True, scenarioA) \<and> pristine scenarioA
   \<and> parseArgs 0 scenarioA 1 [''prog''] = Ret (True, scenarioA)"
proof -
  have 1: "(- 3 :: int) < 2" and 2: "(1 :: int) < 2" by simp_all
  show ?thesis
    using parseArgs_fewer_than_two_arguments[OF 1, of 0
        "TGroup [Decl ''alive'' (CHR 0x00) (TPrim PBool),
                 Decl ''param'' (CHR 0x00) (TPrim PInt64),
                 Decl ''ind'' (CHR 0x00) (TVector True True (TPrim PInt32))]"
        "[]" "CHR 0x00" "[]"]
      parseArgs_fewer_than_two_arguments[OF 2, of 0
        "TGroup [Decl ''alive'' (CHR 0x00) (TPrim PBool),
                 Decl ''param'' (CHR 0x00) (TPrim PInt64),
                 Decl ''ind'' (CHR 0x00) (TVector True True (TPrim PInt32))]"
        "[]" "CHR 0x00" "[''prog'']"]
    unfolding scenarioA_def by blast
qed

subsection \<open>C5: scenario A\<close>

lemma scenarioA_run:
  "parseArgs 7 scenarioA 7 argvA =
     Ret (True,
       Group [] (CHR 0x00)
         [Prim ''alive'' (CHR 0x00) PBool True (VBool True),
          Prim ''param'' (CHR 0x00) PInt64 True (VInt 20),
          Vector ''ind'' (CHR 0x00) True True (TPrim PInt32) True
            [Prim ''ind'' (CHR 0x00) PInt32 True (VInt 10),
             Prim ''ind'' (CHR 0x00) PInt32 True (VInt 11)]]
         [(''ind'', 2), (''param'', 1), (''alive'', 0)] [])"
  by code_simp

text \<open>
  C5. Parsing \<^verbatim>\<open>prog --alive=true --param 20 --ind=10 --ind 11\<close> against the
  group of \<^verbatim>\<open>alive\<close>, \<^verbatim>\<open>param\<close> and \<^verbatim>\<open>ind\<close> returns true, with any budget of
  at least 7, and leaves \<^verbatim>\<open>alive\<close> present with the value true, \<^verbatim>\<open>param\<close>
  present with the value 20, and \<^verbatim>\<open>ind\<close> holding 10 and 11 in that order.
\<close>

theorem scenario_A_basic_flags:
  "parseArgs (7 + j) scenarioA 7 argvA =
     Ret (True,
       Group [] (CHR 0x00)
         [Prim ''alive'' (CHR 0x00) PBool True (VBool True),
          Prim ''param'' (CHR 0x00) PInt64 True (VInt 20),
          Vector ''ind'' (CHR 0x00) True True (TPrim PInt32) True
            [Prim ''ind'' (CHR 0x00) PInt32 True (VInt 10),
             Prim ''ind'' (CHR 0x00) PInt32 True (VInt 11)]]
         [(''ind'', 2), (''param'', 1), (''alive'', 0)] [])"
  using parseArgs_fuel[of 7 scenarioA 7 argvA j] scenarioA_run by simp

subsection \<open>C1: when a greedy vector calls itself again\<close>

lemma hasFlagL_foldl_addFlag:
  "hasFlagL (foldl addFlag (Group n c ms bl bs) xs) name = list_ex (\<lambda>m. hasFlagL m name) (ms @ xs)"
  by (induction xs arbitrary: ms bl bs) simp_all

lemma hasFlagS_foldl_addFlag:
  "hasFlagS (foldl addFlag (Group n c ms bl bs) xs) name = list_ex (\<lambda>m. hasFlagS m name) (ms @ xs)"
  by (induction xs arbitrary: ms bl bs) simp_all

lemma argvA_ind:
  "parseArgsR 3 (instantiate (TPrim PInt32) ''ind'' (CHR 0x00)) (onLongFlagValue argvA 4 ''ind'' ''10'')
     = Ret (True, Prim ''ind'' (CHR 0x00) PInt32 True (VInt 10), onLongFlag argvA 5 ''ind'')"
  by code_simp

lemma argvA_ind_last:
  "parseArgsR 2 (instantiate (TPrim PInt32) ''ind'' (CHR 0x00)) (onLongFlag argvA 5 ''ind'')
     = Ret (True, Prim ''ind'' (CHR 0x00) PInt32 True (VInt 11), onEnd argvA)"
  by code_simp

lemma argvC_second_group:
  "parseArgsR 6 (instantiate RepeatableGroup ''lists'' (CHR 0x00)) (onLongFlag argvC 6 ''weights'')
     = Ret (True,
         Group ''lists'' (CHR 0x00)
           [Vector ''weights'' (CHR 0x00) True False (TPrim PInt32) True
              [Prim ''weights'' (CHR 0x00) PInt32 True (VInt 4),
               Prim ''weights'' (CHR 0x00) PInt32 True (VInt 5),
               Prim ''weights'' (CHR 0x00) PInt32 True (VInt 6)]]
           [(''weights'', 0)] [],
         onLongFlag argvC 10 ''param'')"
  by code_simp

lemma argvC_first_lists:
  "parseArgsR 6 (instantiate RepeatableGroup ''lists'' (CHR 0x00)) (onLongFlag argvC 1 ''lists'')
     = Ret (True,
         Group ''lists'' (CHR 0x00)
           [Vector ''weights'' (CHR 0x00) True False (TPrim PInt32) True
              [Prim ''weights'' (CHR 0x00) PInt32 True (VInt 1),
               Prim ''weights'' (CHR 0x00) PInt32 True (VInt 2),
               Prim ''weights'' (CHR 0x00) PInt32 True (VInt 3)]]
           [(''weights'', 0)] [],
         onLongFlag argvC 6 ''weights'')"
  by code_simp

lemma argvC_lists:
  "parseArgsR 8 (Vector ''lists'' (CHR 0x00) True True RepeatableGroup False [])
       (onLongFlag argvC 1 ''lists'')
     = Ret (True,
         Vector ''lists'' (CHR 0x00) True True RepeatableGroup True
           [Group ''lists'' (CHR 0x00)
              [Vector ''weights'' (CHR 0x00) True False (TPrim PInt32) True
                 [Prim ''weights'' (CHR 0x00) PInt32 True (VInt 1),
                  Prim ''weights'' (CHR 0x00) PInt32 True (VInt 2),
                  Prim ''weights'' (CHR 0x00) PInt32 True (VInt 3)]]
              [(''weights'', 0)] [],
            Group ''lists'' (CHR 0x00)
              [Vector ''weights'' (CHR 0x00) True False (TPrim PInt32) True
                 [Prim ''weights'' (CHR 0x00) PInt32 True (VInt 4),
                  Prim ''weights'' (CHR 0x00) PInt32 True (VInt 5),
                  Prim ''weights'' (CHR 0x00) PInt32 True (VInt 6)]]
              [(''weights'', 0)] []],
         onLongFlag argvC 10 ''param'')"
  by code_simp

text \<open>
  C1, as stated, fails. The claim lets a greedy vector call itself again only
  for a token that is no flag or that names the vector itself, and makes it
  return for a flag naming a descendant of the element parser. In scenario C
  the vector \<^verbatim>\<open>lists\<close> has appended its first group and stands on
  \<^verbatim>\<open>--weights\<close>, the name of a member of the element group and not the name of
  the vector: it does not return with one element and the reader on
  \<^verbatim>\<open>--weights\<close>.
\<close>

theorem vector_reentry_on_descendant_name:
  "parseArgsR 7 (instantiate RepeatableGroup ''lists'' (CHR 0x00)) (onLongFlag argvC 1 ''lists'')
     = Ret (True,
         Group ''lists'' (CHR 0x00)
           [Vector ''weights'' (CHR 0x00) True False (TPrim PInt32) True
              [Prim ''weights'' (CHR 0x00) PInt32 True (VInt 1),
               Prim ''weights'' (CHR 0x00) PInt32 True (VInt 2),
               Prim ''weights'' (CHR 0x00) PInt32 True (VInt 3)]]
           [(''weights'', 0)] [],
         onLongFlag argvC 6 ''weights'')
   \<and> tell (onLongFlag argvC 1 ''lists'') \<noteq> tell (onLongFlag argvC 6 ''weights'')
   \<and> hasLongFlag (onLongFlag argvC 6 ''weights'')
   \<and> getLongFlag (onLongFlag argvC 6 ''weights'') \<noteq> ''lists''
   \<and> parseArgsR 8 (Vector ''lists'' (CHR 0x00) True True RepeatableGroup False [])
         (onLongFlag argvC 1 ''lists'')
       \<noteq> Ret (True,
             Vector ''lists'' (CHR 0x00) True True RepeatableGroup True
               [Group ''lists'' (CHR 0x00)
                  [Vector ''weights'' (CHR 0x00) True False (TPrim PInt32) True
                     [Prim ''weights'' (CHR 0x00) PInt32 True (VInt 1),
                      Prim ''weights'' (CHR 0x00) PInt32 True (VInt 2),
                      Prim ''weights'' (CHR 0x00) PInt32 True (VInt 3)]]
                  [(''weights'', 0)] []],
             onLongFlag argvC 6 ''weights'')"
proof -
  have 1: "parseArgsR 7 (instantiate RepeatableGroup ''lists'' (CHR 0x00)) (onLongFlag argvC 1 ''lists'')
     = Ret (True,
         Group ''lists'' (CHR 0x00)
           [Vector ''weights'' (CHR 0x00) True False (TPrim PInt32) True
              [Prim ''weights'' (CHR 0x00) PInt32 True (VInt 1),
               Prim ''weights'' (CHR 0x00) PInt32 True (VInt 2),
               Prim ''weights'' (CHR 0x00) PInt32 True (VInt 3)]]
           [(''weights'', 0)] [],
         onLongFlag argvC 6 ''weights'')"
    using parseArgsR_fuel[of 6 _ _ 1] argvC_first_lists by simp
  have 2: "tell (onLongFlag argvC 1 ''lists'') \<noteq> tell (onLongFlag argvC 6 ''weights'')"
    "hasLongFlag (onLongFlag argvC 6 ''weights'')"
    "getLongFlag (onLongFlag argvC 6 ''weights'') \<noteq> ''lists''"
    by code_simp+
  show ?thesis
    unfolding argvC_lists using 1 2 by simp
qed


text \<open>
  C1, amended. In a greedy vector, after the element flag has consumed with
  success and \<^verbatim>\<open>tell()\<close> has moved, the value is appended. If the reader is
  not at the end of the arguments, the vector calls itself again exactly when
  the next token is not a flag, or the vector is reentrant and \<^verbatim>\<open>hasFlag\<close> of
  the element flag accepts the token; otherwise it returns true. It also
  returns true, at the end of the arguments or not, whenever there is a token
  that the element flag does not accept or the vector is not reentrant. A
  primitive element accepts exactly the vector's own name of the kind of the
  token, and so does a switch; a vector as element accepts that name and what
  its own element accepts. A group element accepts every token that one of
  its members accepts, and no other token that is not the vector's own name.
  Whether a group element accepts the vector's own name, and what a vector
  without a long name does at the end of the arguments, is not stated.
\<close>

theorem vector_greedy_reentry:
  assumes "parseArgsR k (instantiate T n c) ar = Ret (True, flag, ar')"
    and "tell ar \<noteq> tell ar'"
  shows "(\<not> atEnd ar' \<longrightarrow>
           parseArgsR (Suc k) (Vector n c True r T e vs) ar =
             (if \<not> hasAnyFlag ar' \<or> (r \<and> tokenOwnedBy (instantiate T n c) ar')
              then parseArgsR k (Vector n c True r T True (vs @ [flag])) ar'
              else Ret (True, Vector n c True r T True (vs @ [flag]), ar')))
         \<and> (hasAnyFlag ar' \<and> \<not> (r \<and> tokenOwnedBy (instantiate T n c) ar') \<longrightarrow>
              parseArgsR (Suc k) (Vector n c True r T e vs) ar
                = Ret (True, Vector n c True r T True (vs @ [flag]), ar'))
         \<and> tokenOwnedBy (instantiate (TPrim P) n c) ar' =
             (if hasShortFlag ar' then c = getShortFlag ar' else n = getLongFlag ar')
         \<and> (list_ex (\<lambda>m. tokenOwnedBy m ar') (instantiateAll ds) \<longrightarrow>
              tokenOwnedBy (instantiate (TGroup ds) n c) ar')
         \<and> (\<not> (if hasShortFlag ar' then c = getShortFlag ar' else n = getLongFlag ar') \<longrightarrow>
              tokenOwnedBy (instantiate (TGroup ds) n c) ar' =
                list_ex (\<lambda>m. tokenOwnedBy m ar') (instantiateAll ds))
         \<and> tokenOwnedBy (instantiate TSwitch n c) ar' =
             (if hasShortFlag ar' then c = getShortFlag ar' else n = getLongFlag ar')
         \<and> tokenOwnedBy (instantiate (TVector gi ri Ti) n c) ar' =
             ((if hasShortFlag ar' then c = getShortFlag ar' else n = getLongFlag ar')
              \<or> tokenOwnedBy (instantiate Ti n c) ar')"
proof -
  have "evolves (instantiate T n c) flag" using assms(1) by (rule parseArgsR_evolves)
  then have cr: "canReenter r ar' flag = (r \<and> tokenOwnedBy (instantiate T n c) ar')"
    by (simp add: canReenter_def tokenOwnedBy_def evolves_hasFlagL(1) evolves_hasFlagS(1))
  have 1: "parseArgsR (Suc k) (Vector n c True r T e vs) ar =
           (if \<not> hasAnyFlag ar' \<or> (r \<and> tokenOwnedBy (instantiate T n c) ar')
            then parseArgsR k (Vector n c True r T True (vs @ [flag])) ar'
            else Ret (True, Vector n c True r T True (vs @ [flag]), ar'))"
    using assms cr by simp
  have 2: "parseArgsR (Suc k) (Vector n c True r T e vs) ar
                = Ret (True, Vector n c True r T True (vs @ [flag]), ar')"
    if "hasAnyFlag ar' \<and> \<not> (r \<and> tokenOwnedBy (instantiate T n c) ar')"
    using 1 that by simp
  have 3: "tokenOwnedBy (instantiate (TPrim P) n c) ar' =
             (if hasShortFlag ar' then c = getShortFlag ar' else n = getLongFlag ar')"
    by (simp add: tokenOwnedBy_def)
  have 4: "tokenOwnedBy (instantiate (TGroup ds) n c) ar' =
             list_ex (\<lambda>m. tokenOwnedBy m ar') (instantiateAll ds)"
    by (simp add: tokenOwnedBy_def hasFlagL_foldl_addFlag hasFlagS_foldl_addFlag)
  have 5: "tokenOwnedBy (instantiate TSwitch n c) ar' =
             (if hasShortFlag ar' then c = getShortFlag ar' else n = getLongFlag ar')"
    by (simp add: tokenOwnedBy_def)
  have 6: "tokenOwnedBy (instantiate (TVector gi ri Ti) n c) ar' =
             ((if hasShortFlag ar' then c = getShortFlag ar' else n = getLongFlag ar')
              \<or> tokenOwnedBy (instantiate Ti n c) ar')"
    by (simp add: tokenOwnedBy_def)
  from 1 2 3 4 5 6 show ?thesis by blast
qed

theorem vector_greedy_reentry_witness:
  "parseArgsR 4 (Vector ''ind'' (CHR 0x00) True True (TPrim PInt32) False [])
       (onLongFlagValue argvA 4 ''ind'' ''10'')
     = Ret (True, Vector ''ind'' (CHR 0x00) True True (TPrim PInt32) True
          [Prim ''ind'' (CHR 0x00) PInt32 True (VInt 10), Prim ''ind'' (CHR 0x00) PInt32 True (VInt 11)],
          onEnd argvA)
   \<and> parseArgsR 7 (Vector ''lists'' (CHR 0x00) True True RepeatableGroup False [])
         (onLongFlag argvC 1 ''lists'')
       = parseArgsR 6 (Vector ''lists'' (CHR 0x00) True True RepeatableGroup True
           [Group ''lists'' (CHR 0x00)
              [Vector ''weights'' (CHR 0x00) True False (TPrim PInt32) True
                 [Prim ''weights'' (CHR 0x00) PInt32 True (VInt 1),
                  Prim ''weights'' (CHR 0x00) PInt32 True (VInt 2),
                  Prim ''weights'' (CHR 0x00) PInt32 True (VInt 3)]]
              [(''weights'', 0)] []])
         (onLongFlag argvC 6 ''weights'')
   \<and> parseArgsR 7 (Vector ''lists'' (CHR 0x00) True True RepeatableGroup True
           [Group ''lists'' (CHR 0x00)
              [Vector ''weights'' (CHR 0x00) True False (TPrim PInt32) True
                 [Prim ''weights'' (CHR 0x00) PInt32 True (VInt 1),
                  Prim ''weights'' (CHR 0x00) PInt32 True (VInt 2),
                  Prim ''weights'' (CHR 0x00) PInt32 True (VInt 3)]]
              [(''weights'', 0)] []])
         (onLongFlag argvC 6 ''weights'')
       = Ret (True,
           Vector ''lists'' (CHR 0x00) True True RepeatableGroup True
             [Group ''lists'' (CHR 0x00)
                [Vector ''weights'' (CHR 0x00) True False (TPrim PInt32) True
                   [Prim ''weights'' (CHR 0x00) PInt32 True (VInt 1),
                    Prim ''weights'' (CHR 0x00) PInt32 True (VInt 2),
                    Prim ''weights'' (CHR 0x00) PInt32 True (VInt 3)]]
                [(''weights'', 0)] [],
              Group ''lists'' (CHR 0x00)
                [Vector ''weights'' (CHR 0x00) True False (TPrim PInt32) True
                   [Prim ''weights'' (CHR 0x00) PInt32 True (VInt 4),
                    Prim ''weights'' (CHR 0x00) PInt32 True (VInt 5),
                    Prim ''weights'' (CHR 0x00) PInt32 True (VInt 6)]]
                [(''weights'', 0)] []],
           onLongFlag argvC 10 ''param'')"
proof -
  let ?G1 = "Group ''lists'' (CHR 0x00)
              [Vector ''weights'' (CHR 0x00) True False (TPrim PInt32) True
                 [Prim ''weights'' (CHR 0x00) PInt32 True (VInt 1),
                  Prim ''weights'' (CHR 0x00) PInt32 True (VInt 2),
                  Prim ''weights'' (CHR 0x00) PInt32 True (VInt 3)]]
              [(''weights'', 0)] []"
  have t: "tell (onLongFlagValue argvA 4 ''ind'' ''10'') \<noteq> tell (onLongFlag argvA 5 ''ind'')"
    "tell (onLongFlag argvA 5 ''ind'') \<noteq> tell (onEnd argvA)"
    "tell (onLongFlag argvC 1 ''lists'') \<noteq> tell (onLongFlag argvC 6 ''weights'')"
    "tell (onLongFlag argvC 6 ''weights'') \<noteq> tell (onLongFlag argvC 10 ''param'')"
    by code_simp+
  have o: "\<not> atEnd (onLongFlag argvA 5 ''ind'')"
    "tokenOwnedBy (instantiate (TPrim PInt32) ''ind'' (CHR 0x00)) (onLongFlag argvA 5 ''ind'')"
    "hasAnyFlag (onEnd argvA)"
    "\<not> tokenOwnedBy (instantiate (TPrim PInt32) ''ind'' (CHR 0x00)) (onEnd argvA)"
    "\<not> atEnd (onLongFlag argvC 6 ''weights'')"
    "list_ex (\<lambda>m. tokenOwnedBy m (onLongFlag argvC 6 ''weights''))
       (instantiateAll [Decl ''weights'' (CHR 0x00) (TVector True False (TPrim PInt32))])"
    "hasAnyFlag (onLongFlag argvC 10 ''param'')"
    "\<not> (if hasShortFlag (onLongFlag argvC 10 ''param'') then CHR 0x00 = getShortFlag (onLongFlag argvC 10 ''param'')
         else ''lists'' = getLongFlag (onLongFlag argvC 10 ''param''))"
    "\<not> list_ex (\<lambda>m. tokenOwnedBy m (onLongFlag argvC 10 ''param''))
       (instantiateAll [Decl ''weights'' (CHR 0x00) (TVector True False (TPrim PInt32))])"
    by code_simp+
  note A = vector_greedy_reentry[OF argvA_ind t(1)]
  note B = vector_greedy_reentry[OF argvA_ind_last t(2)]
  note C = vector_greedy_reentry[OF argvC_first_lists t(3)]
  note D = vector_greedy_reentry[OF argvC_second_group t(4)]
  have a1: "parseArgsR 4 (Vector ''ind'' (CHR 0x00) True True (TPrim PInt32) False [])
       (onLongFlagValue argvA 4 ''ind'' ''10'')
     = parseArgsR 3 (Vector ''ind'' (CHR 0x00) True True (TPrim PInt32) True
          [Prim ''ind'' (CHR 0x00) PInt32 True (VInt 10)]) (onLongFlag argvA 5 ''ind'')"
    using A[where r = True and e = False and vs = "[]", THEN conjunct1, THEN mp, OF o(1)] o(2)
    by (simp del: parseArgsR.simps)
  have a2: "parseArgsR 3 (Vector ''ind'' (CHR 0x00) True True (TPrim PInt32) True
          [Prim ''ind'' (CHR 0x00) PInt32 True (VInt 10)]) (onLongFlag argvA 5 ''ind'')
     = Ret (True, Vector ''ind'' (CHR 0x00) True True (TPrim PInt32) True
          [Prim ''ind'' (CHR 0x00) PInt32 True (VInt 10), Prim ''ind'' (CHR 0x00) PInt32 True (VInt 11)],
          onEnd argvA)"
    using B[where r = True and e = True and vs = "[Prim ''ind'' (CHR 0x00) PInt32 True (VInt 10)]",
        THEN conjunct2, THEN conjunct1, THEN mp] o(3,4)
    by (simp del: parseArgsR.simps)
  have own: "tokenOwnedBy (instantiate RepeatableGroup ''lists'' (CHR 0x00)) (onLongFlag argvC 6 ''weights'')"
    unfolding RepeatableGroup_def
    by (rule C[THEN conjunct2, THEN conjunct2, THEN conjunct2, THEN conjunct1, THEN mp]) (rule o(6))
  have c1: "parseArgsR 7 (Vector ''lists'' (CHR 0x00) True True RepeatableGroup False [])
         (onLongFlag argvC 1 ''lists'')
       = parseArgsR 6 (Vector ''lists'' (CHR 0x00) True True RepeatableGroup True [?G1])
         (onLongFlag argvC 6 ''weights'')"
    using C[where r = True and e = False and vs = "[]", THEN conjunct1, THEN mp, OF o(5)] own
    by (simp del: parseArgsR.simps)
  have nown: "\<not> tokenOwnedBy (instantiate RepeatableGroup ''lists'' (CHR 0x00)) (onLongFlag argvC 10 ''param'')"
    unfolding RepeatableGroup_def
    using D[where ds = "[Decl ''weights'' (CHR 0x00) (TVector True False (TPrim PInt32))]",
        THEN conjunct2, THEN conjunct2, THEN conjunct2, THEN conjunct2, THEN conjunct1, THEN mp,
        OF o(8)] o(9)
    by simp
  have d1: "parseArgsR 7 (Vector ''lists'' (CHR 0x00) True True RepeatableGroup True [?G1])
         (onLongFlag argvC 6 ''weights'')
       = Ret (True,
           Vector ''lists'' (CHR 0x00) True True RepeatableGroup True
             ([?G1] @ [Group ''lists'' (CHR 0x00)
                [Vector ''weights'' (CHR 0x00) True False (TPrim PInt32) True
                   [Prim ''weights'' (CHR 0x00) PInt32 True (VInt 4),
                    Prim ''weights'' (CHR 0x00) PInt32 True (VInt 5),
                    Prim ''weights'' (CHR 0x00) PInt32 True (VInt 6)]]
                [(''weights'', 0)] []]),
           onLongFlag argvC 10 ''param'')"
    using D[where r = True and e = True and vs = "[?G1]",
        THEN conjunct2, THEN conjunct1, THEN mp] o(7) nown
    by (simp del: parseArgsR.simps)
  from a1 a2 c1 d1 show ?thesis by (simp del: parseArgsR.simps)
qed


subsection \<open>C4: scenario C\<close>

lemma scenarioC_run:
  "parseArgs 11 scenarioC 17 argvC =
     Ret (True,
       Group [] (CHR 0x00)
         [Prim ''param'' (CHR 0x00) PInt64 True (VInt 1336),
          Vector ''lists'' (CHR 0x00) True True RepeatableGroup True
            [Group ''lists'' (CHR 0x00)
               [Vector ''weights'' (CHR 0x00) True False (TPrim PInt32) True
                  [Prim ''weights'' (CHR 0x00) PInt32 True (VInt 1),
                   Prim ''weights'' (CHR 0x00) PInt32 True (VInt 2),
                   Prim ''weights'' (CHR 0x00) PInt32 True (VInt 3)]]
               [(''weights'', 0)] [],
             Group ''lists'' (CHR 0x00)
               [Vector ''weights'' (CHR 0x00) True False (TPrim PInt32) True
                  [Prim ''weights'' (CHR 0x00) PInt32 True (VInt 4),
                   Prim ''weights'' (CHR 0x00) PInt32 True (VInt 5),
                   Prim ''weights'' (CHR 0x00) PInt32 True (VInt 6)]]
               [(''weights'', 0)] [],
             Group ''lists'' (CHR 0x00)
               [Vector ''weights'' (CHR 0x00) True False (TPrim PInt32) True
                  [Prim ''weights'' (CHR 0x00) PInt32 True (VInt 10),
                   Prim ''weights'' (CHR 0x00) PInt32 True (VInt 11),
                   Prim ''weights'' (CHR 0x00) PInt32 True (VInt 12)]]
               [(''weights'', 0)] []]]
         [(''lists'', 1), (''param'', 0)] [])"
  by code_simp

lemma test2_run:
  "parseArgs 13 scenarioC 25 argvTest2 =
     Ret (True,
       Group [] (CHR 0x00)
         [Prim ''param'' (CHR 0x00) PInt64 True (VInt 1336),
          Vector ''lists'' (CHR 0x00) True True RepeatableGroup True
            [Group ''lists'' (CHR 0x00)
               [Vector ''weights'' (CHR 0x00) True False (TPrim PInt32) True
                  [Prim ''weights'' (CHR 0x00) PInt32 True (VInt 1),
                   Prim ''weights'' (CHR 0x00) PInt32 True (VInt 2),
                   Prim ''weights'' (CHR 0x00) PInt32 True (VInt 3)]]
               [(''weights'', 0)] [],
             Group ''lists'' (CHR 0x00)
               [Vector ''weights'' (CHR 0x00) True False (TPrim PInt32) True
                  [Prim ''weights'' (CHR 0x00) PInt32 True (VInt 4),
                   Prim ''weights'' (CHR 0x00) PInt32 True (VInt 5),
                   Prim ''weights'' (CHR 0x00) PInt32 True (VInt 6)]]
               [(''weights'', 0)] [],
             Group ''lists'' (CHR 0x00)
               [Vector ''weights'' (CHR 0x00) True False (TPrim PInt32) True
                  [Prim ''weights'' (CHR 0x00) PInt32 True (VInt 7),
                   Prim ''weights'' (CHR 0x00) PInt32 True (VInt 8),
                   Prim ''weights'' (CHR 0x00) PInt32 True (VInt 9)]]
               [(''weights'', 0)] [],
             Group ''lists'' (CHR 0x00)
               [Vector ''weights'' (CHR 0x00) True False (TPrim PInt32) True
                  [Prim ''weights'' (CHR 0x00) PInt32 True (VInt 10),
                   Prim ''weights'' (CHR 0x00) PInt32 True (VInt 11),
                   Prim ''weights'' (CHR 0x00) PInt32 True (VInt 12)]]
               [(''weights'', 0)] [],
             Group ''lists'' (CHR 0x00)
               [Vector ''weights'' (CHR 0x00) True False (TPrim PInt32) True
                  [Prim ''weights'' (CHR 0x00) PInt32 True (VInt 13),
                   Prim ''weights'' (CHR 0x00) PInt32 True (VInt 14),
                   Prim ''weights'' (CHR 0x00) PInt32 True (VInt 15)]]
               [(''weights'', 0)] []]]
         [(''lists'', 1), (''param'', 0)] [])"
  by code_simp

text \<open>
  C4, as stated, fails: the argument list of scenario C names \<^verbatim>\<open>--weights\<close>
  three times, and the parse leaves three elements in \<^verbatim>\<open>lists\<close>, not five.
\<close>

theorem scenario_C_lists_not_five:
  "(case parseArgs 11 scenarioC 17 argvC of
      Ret (ok, f) \<Rightarrow> length (vectorValue (members f ! 1))
    | UB \<Rightarrow> 0
    | OutOfFuel \<Rightarrow> 0) \<noteq> 5"
  by (simp add: scenarioC_run)

text \<open>
  C4, amended. Parsing
  \<^verbatim>\<open>--lists --weights 1 2 3 --weights 4 5 6 --param 1336 --lists --weights 10 11 12\<close>
  succeeds, with any budget of at least 11, and produces three \<^verbatim>\<open>weights\<close>
  sequences, 1 2 3, 4 5 6 and 10 11 12, each in a \<^verbatim>\<open>lists\<close> element of its own,
  and \<^verbatim>\<open>param\<close> equal to 1336: every \<^verbatim>\<open>--weights\<close> after the first run starts
  a new \<^verbatim>\<open>lists\<close> element and does not extend the earlier sequence. The
  argument list of the test, which names \<^verbatim>\<open>--weights\<close> five times, produces
  the five sequences 1 2 3 to 13 14 15.
\<close>

theorem scenario_C_sequential:
  "parseArgs (11 + j) scenarioC 17 argvC =
     Ret (True,
       Group [] (CHR 0x00)
         [Prim ''param'' (CHR 0x00) PInt64 True (VInt 1336),
          Vector ''lists'' (CHR 0x00) True True RepeatableGroup True
            [Group ''lists'' (CHR 0x00)
               [Vector ''weights'' (CHR 0x00) True False (TPrim PInt32) True
                  [Prim ''weights'' (CHR 0x00) PInt32 True (VInt 1),
                   Prim ''weights'' (CHR 0x00) PInt32 True (VInt 2),
                   Prim ''weights'' (CHR 0x00) PInt32 True (VInt 3)]]
               [(''weights'', 0)] [],
             Group ''lists'' (CHR 0x00)
               [Vector ''weights'' (CHR 0x00) True False (TPrim PInt32) True
                  [Prim ''weights'' (CHR 0x00) PInt32 True (VInt 4),
                   Prim ''weights'' (CHR 0x00) PInt32 True (VInt 5),
                   Prim ''weights'' (CHR 0x00) PInt32 True (VInt 6)]]
               [(''weights'', 0)] [],
             Group ''lists'' (CHR 0x00)
               [Vector ''weights'' (CHR 0x00) True False (TPrim PInt32) True
                  [Prim ''weights'' (CHR 0x00) PInt32 True (VInt 10),
                   Prim ''weights'' (CHR 0x00) PInt32 True (VInt 11),
                   Prim ''weights'' (CHR 0x00) PInt32 True (VInt 12)]]
               [(''weights'', 0)] []]]
         [(''lists'', 1), (''param'', 0)] [])
   \<and> parseArgs (13 + j) scenarioC 25 argvTest2 =
     Ret (True,
       Group [] (CHR 0x00)
         [Prim ''param'' (CHR 0x00) PInt64 True (VInt 1336),
          Vector ''lists'' (CHR 0x00) True True RepeatableGroup True
            [Group ''lists'' (CHR 0x00)
               [Vector ''weights'' (CHR 0x00) True False (TPrim PInt32) True
                  [Prim ''weights'' (CHR 0x00) PInt32 True (VInt 1),
                   Prim ''weights'' (CHR 0x00) PInt32 True (VInt 2),
                   Prim ''weights'' (CHR 0x00) PInt32 True (VInt 3)]]
               [(''weights'', 0)] [],
             Group ''lists'' (CHR 0x00)
               [Vector ''weights'' (CHR 0x00) True False (TPrim PInt32) True
                  [Prim ''weights'' (CHR 0x00) PInt32 True (VInt 4),
                   Prim ''weights'' (CHR 0x00) PInt32 True (VInt 5),
                   Prim ''weights'' (CHR 0x00) PInt32 True (VInt 6)]]
               [(''weights'', 0)] [],
             Group ''lists'' (CHR 0x00)
               [Vector ''weights'' (CHR 0x00) True False (TPrim PInt32) True
                  [Prim ''weights'' (CHR 0x00) PInt32 True (VInt 7),
                   Prim ''weights'' (CHR 0x00) PInt32 True (VInt 8),
                   Prim ''weights'' (CHR 0x00) PInt32 True (VInt 9)]]
               [(''weights'', 0)] [],
             Group ''lists'' (CHR 0x00)
               [Vector ''weights'' (CHR 0x00) True False (TPrim PInt32) True
                  [Prim ''weights'' (CHR 0x00) PInt32 True (VInt 10),
                   Prim ''weights'' (CHR 0x00) PInt32 True (VInt 11),
                   Prim ''weights'' (CHR 0x00) PInt32 True (VInt 12)]]
               [(''weights'', 0)] [],
             Group ''lists'' (CHR 0x00)
               [Vector ''weights'' (CHR 0x00) True False (TPrim PInt32) True
                  [Prim ''weights'' (CHR 0x00) PInt32 True (VInt 13),
                   Prim ''weights'' (CHR 0x00) PInt32 True (VInt 14),
                   Prim ''weights'' (CHR 0x00) PInt32 True (VInt 15)]]
               [(''weights'', 0)] []]]
         [(''lists'', 1), (''param'', 0)] [])"
  using parseArgs_fuel[of 11 scenarioC 17 argvC j] scenarioC_run
    parseArgs_fuel[of 13 scenarioC 25 argvTest2 j] test2_run
  by simp

subsection \<open>C3: clusters of short flags\<close>

lemma example_bp_run:
  "parseArgs 8 AllFlags 4 [''FlagsExample'', ''-D'', ''-bp'', ''10''] =
     Ret (True,
       Group [] (CHR 0x00)
         [Vector ''display'' (CHR ''D'') False True DisplayFile True
            [Group ''display'' (CHR ''D'')
               [Prim ''file'' (CHR ''f'') PString False (VString []),
                Prim ''label'' (CHR ''l'') PString False (VString []),
                Vector ''bookmark'' (CHR ''b'') True True (TPrim PInt32) True
                  [Prim ''bookmark'' (CHR ''b'') PInt32 True (VInt 10)],
                Switch [] (CHR ''p'') True]
               [(''bookmark'', 2), (''label'', 1), (''file'', 0)]
               [(CHR ''p'', 3), (CHR ''b'', 2), (CHR ''l'', 1), (CHR ''f'', 0)]]]
         [(''display'', 0)] [(CHR ''D'', 0)])"
  by code_simp

lemma example_pb_run:
  "parseArgs 8 AllFlags 4 [''FlagsExample'', ''-D'', ''-pb'', ''9''] =
     Ret (True,
       Group [] (CHR 0x00)
         [Vector ''display'' (CHR ''D'') False True DisplayFile True
            [Group ''display'' (CHR ''D'')
               [Prim ''file'' (CHR ''f'') PString False (VString []),
                Prim ''label'' (CHR ''l'') PString False (VString []),
                Vector ''bookmark'' (CHR ''b'') True True (TPrim PInt32) True
                  [Prim ''bookmark'' (CHR ''b'') PInt32 True (VInt 9)],
                Switch [] (CHR ''p'') True]
               [(''bookmark'', 2), (''label'', 1), (''file'', 0)]
               [(CHR ''p'', 3), (CHR ''b'', 2), (CHR ''l'', 1), (CHR ''f'', 0)]]]
         [(''display'', 0)] [(CHR ''D'', 0)])"
  by code_simp

lemma example_p_b_run:
  "parseArgs 8 AllFlags 5 [''FlagsExample'', ''-D'', ''-p'', ''-b'', ''9''] =
     Ret (True,
       Group [] (CHR 0x00)
         [Vector ''display'' (CHR ''D'') False True DisplayFile True
            [Group ''display'' (CHR ''D'')
               [Prim ''file'' (CHR ''f'') PString False (VString []),
                Prim ''label'' (CHR ''l'') PString False (VString []),
                Vector ''bookmark'' (CHR ''b'') True True (TPrim PInt32) True
                  [Prim ''bookmark'' (CHR ''b'') PInt32 True (VInt 9)],
                Switch [] (CHR ''p'') True]
               [(''bookmark'', 2), (''label'', 1), (''file'', 0)]
               [(CHR ''p'', 3), (CHR ''b'', 2), (CHR ''l'', 1), (CHR ''f'', 0)]]]
         [(''display'', 0)] [(CHR ''D'', 0)])"
  by code_simp

text \<open>
  C3 is right about the documented behaviour and the code departs from it. On
  the flags of \<^verbatim>\<open>Example.cpp\<close>, \<^verbatim>\<open>-D -bp 10\<close> parses with success and the
  \<^verbatim>\<open>10\<close> is delivered to \<^verbatim>\<open>b\<close>, which is not the last character of its
  cluster: \<^verbatim>\<open>nextRawArgument\<close> takes the following argument while \<^verbatim>\<open>p\<close> is
  still pending. The other half of the claim holds on the same flags:
  \<^verbatim>\<open>-pb 9\<close> and \<^verbatim>\<open>-p -b 9\<close> leave the same tree.
\<close>

theorem cluster_bp_delivers_value:
  "parseArgs (8 + j) AllFlags 4 [''FlagsExample'', ''-D'', ''-bp'', ''10''] =
     Ret (True,
       Group [] (CHR 0x00)
         [Vector ''display'' (CHR ''D'') False True DisplayFile True
            [Group ''display'' (CHR ''D'')
               [Prim ''file'' (CHR ''f'') PString False (VString []),
                Prim ''label'' (CHR ''l'') PString False (VString []),
                Vector ''bookmark'' (CHR ''b'') True True (TPrim PInt32) True
                  [Prim ''bookmark'' (CHR ''b'') PInt32 True (VInt 10)],
                Switch [] (CHR ''p'') True]
               [(''bookmark'', 2), (''label'', 1), (''file'', 0)]
               [(CHR ''p'', 3), (CHR ''b'', 2), (CHR ''l'', 1), (CHR ''f'', 0)]]]
         [(''display'', 0)] [(CHR ''D'', 0)])
   \<and> parseArgs (8 + j) AllFlags 4 [''FlagsExample'', ''-D'', ''-pb'', ''9'']
       = parseArgs (8 + j) AllFlags 5 [''FlagsExample'', ''-D'', ''-p'', ''-b'', ''9'']"
  using parseArgs_fuel[of 8 AllFlags 4 "[''FlagsExample'', ''-D'', ''-bp'', ''10'']" j] example_bp_run
    parseArgs_fuel[of 8 AllFlags 4 "[''FlagsExample'', ''-D'', ''-pb'', ''9'']" j] example_pb_run
    parseArgs_fuel[of 8 AllFlags 5 "[''FlagsExample'', ''-D'', ''-p'', ''-b'', ''9'']" j] example_p_b_run
  by simp

subsection \<open>C7: the names a node owns\<close>

text \<open>
  C7 is right about what \<^verbatim>\<open>hasFlag\<close> is documented to answer and the group
  departs from it. The group \<^verbatim>\<open>DisplayFile\<close> constructed with the names
  \<^verbatim>\<open>display\<close> and \<^verbatim>\<open>D\<close>, as the vector \<^verbatim>\<open>files\<close> of \<^verbatim>\<open>Example.cpp\<close>
  constructs its elements, answers false for both of its own names; it answers
  true for the names of its members, and the vector itself answers true for
  the same two names.
\<close>

theorem group_hasFlag_misses_own_name:
  "\<not> hasFlagL (instantiate DisplayFile ''display'' (CHR ''D'')) ''display''
   \<and> \<not> hasFlagS (instantiate DisplayFile ''display'' (CHR ''D'')) (CHR ''D'')
   \<and> hasFlagL (instantiate DisplayFile ''display'' (CHR ''D'')) ''bookmark''
   \<and> hasFlagS (instantiate DisplayFile ''display'' (CHR ''D'')) (CHR ''p'')
   \<and> hasFlagL (instantiate (TVector False True DisplayFile) ''display'' (CHR ''D'')) ''display''
   \<and> hasFlagS (instantiate (TVector False True DisplayFile) ''display'' (CHR ''D'')) (CHR ''D'')"
  by code_simp

subsection \<open>C6: the capacity of a vector\<close>

lemma vector_entered:
  "parseArgsR k (Vector n c g r T e vs) ar = Ret (ok, f', ar') \<Longrightarrow>
     \<exists>vs'. f' = Vector n c g r T True vs'"
proof (induction k arbitrary: e vs ar)
  case 0
  then show ?case by simp
next
  case (Suc k)
  show ?case
  proof (cases "parseArgsR k (instantiate T n c) ar")
    case (Ret x)
    obtain ok1 flag ar1 where x: "x = (ok1, flag, ar1)" by (cases x) auto
    show ?thesis
    proof (cases "ok1 \<and> tell ar \<noteq> tell ar1 \<and> g \<and> (\<not> hasAnyFlag ar1 \<or> canReenter r ar1 flag)")
      case True
      then have "parseArgsR k (Vector n c g r T True (vs @ [flag])) ar1 = Ret (ok, f', ar')"
        using Suc.prems Ret x by simp
      then show ?thesis by (rule Suc.IH)
    next
      case False
      then show ?thesis using Suc.prems Ret x by (auto split: if_splits)
    qed
  qed (use Suc.prems in simp_all)
qed

lemma argvC_weights:
  "parseArgsR 4 (Vector ''weights'' (CHR 0x00) True False (TPrim PInt32) False [])
       (onLongFlag argvC 2 ''weights'')
     = Ret (True,
         Vector ''weights'' (CHR 0x00) True False (TPrim PInt32) True
           [Prim ''weights'' (CHR 0x00) PInt32 True (VInt 1),
            Prim ''weights'' (CHR 0x00) PInt32 True (VInt 2),
            Prim ''weights'' (CHR 0x00) PInt32 True (VInt 3)],
         onLongFlag argvC 6 ''weights'')"
  by code_simp

lemma evolves_subnode:
  "evolves f f' \<Longrightarrow> subnode p f = Some g \<Longrightarrow> \<exists>g'. subnode p f' = Some g' \<and> evolves g g'"
proof (induction p arbitrary: f f' g)
  case Nil
  then show ?case by simp
next
  case (Cons i p)
  show ?case
  proof (cases f)
    case (Prim n c T pr v)
    with Cons.prems show ?thesis by simp
  next
    case (Switch n c pr)
    with Cons.prems show ?thesis by simp
  next
    case (Vector n c gr r T e vs)
    with Cons.prems obtain e' vs' where f': "f' = Vector n c gr r T e' vs'"
      and tk: "take (length vs) vs' = vs"
      by (cases f') auto
    from Cons.prems Vector have i: "i < length vs" and s: "subnode p (vs ! i) = Some g"
      by (simp_all split: if_splits)
    have len: "length vs \<le> length vs'" using arg_cong[OF tk, of length] by simp
    have "vs' ! i = vs ! i" using tk i by (metis nth_take)
    with f' i len s have "subnode (i # p) f' = Some g" by simp
    then show ?thesis using evolves_refl by blast
  next
    case (Group n c ms bl bs)
    with Cons.prems obtain ms' where f': "f' = Group n c ms' bl bs" and ev: "evolvesAll ms ms'"
      by (cases f') auto
    from Cons.prems Group have i: "i < length ms" and s: "subnode p (ms ! i) = Some g"
      by (simp_all split: if_splits)
    have len: "length ms' = length ms" using ev by (rule evolvesAll_length)
    have "evolves (ms ! i) (ms' ! i)" using ev i by (rule evolvesAll_nth)
    from Cons.IH[OF this s] f' i len show ?thesis by simp
  qed
qed

lemma groupLoop_evolves:
  "groupLoop k n c ms bl bs ar = Ret (ok, f', ar') \<Longrightarrow> evolves (Group n c ms bl bs) f'"
  using parse_evolves_both by blast

lemma parseArgs_evolves: "parseArgs k f a v = Ret (ok, f') \<Longrightarrow> evolves f f'"
  by (auto simp: parseArgs_def evolves_refl parseArgsR_evolves
      split: if_splits outcome.splits prod.splits)

lemma groupLoop_member_entered:
  assumes ne: "\<not> atEnd ar"
    and look: "(if hasLongFlag ar then map_of bl (getLongFlag ar) else map_of bs (getShortFlag ar)) = Some i"
    and i: "i < length ms"
    and m: "ms ! i = Vector vn vc g r T e vs" and nc: "\<not> atCapacity (ms ! i)"
    and run: "groupLoop (Suc k) n c ms bl bs ar = Ret (ok, f', ar')"
  shows "\<exists>vs'. members f' ! i = Vector vn vc g r T True vs'"
proof -
  have unf: "groupLoop (Suc k) n c ms bl bs ar =
      (case parseArgsR k (ms ! i) ar of
         Ret (ok, m, ar') \<Rightarrow>
           if \<not> ok then Ret (False, Group n c (ms[i := m]) bl bs, ar')
           else if hasLongFlag ar \<and> tell ar' = tell ar
           then Ret (True, Group n c (ms[i := m]) bl bs, ar')
           else groupLoop k n c (ms[i := m]) bl bs ar'
       | UB \<Rightarrow> UB
       | OutOfFuel \<Rightarrow> OutOfFuel)"
    using ne look i nc by (auto split: if_splits outcome.splits prod.splits)
  from run unf obtain ok1 m1 ar1 where c1: "parseArgsR k (ms ! i) ar = Ret (ok1, m1, ar1)"
    by (cases "parseArgsR k (ms ! i) ar") auto
  from vector_entered[OF c1[unfolded m]] obtain vs1 where m1: "m1 = Vector vn vc g r T True vs1"
    by blast
  have "evolves (Group n c (ms[i := m1]) bl bs) f'"
  proof (cases "\<not> ok1 \<or> (hasLongFlag ar \<and> tell ar1 = tell ar)")
    case True
    with run unf c1 have "f' = Group n c (ms[i := m1]) bl bs" by (auto split: if_splits)
    then show ?thesis by (simp add: evolves_refl)
  next
    case False
    with run unf c1 have "groupLoop k n c (ms[i := m1]) bl bs ar1 = Ret (ok, f', ar')" by auto
    then show ?thesis by (rule groupLoop_evolves)
  qed
  then obtain ms' where f': "f' = Group n c ms' bl bs" and ev: "evolvesAll (ms[i := m1]) ms'"
    by (cases f') auto
  have "evolves ((ms[i := m1]) ! i) (ms' ! i)" by (rule evolvesAll_nth[OF ev]) (simp add: i)
  then have "evolves m1 (ms' ! i)" using i by simp
  with m1 obtain vs' where "ms' ! i = Vector vn vc g r T True vs'" by (cases "ms' ! i") auto
  with f' show ?thesis by simp
qed

lemma groupLoop_at_capacity:
  assumes "\<not> atEnd ar"
    and "(if hasLongFlag ar then map_of bl (getLongFlag ar) else map_of bs (getShortFlag ar)) = Some i"
    and "i < length ms" and "atCapacity (ms ! i)"
  shows "groupLoop (Suc k) n c ms bl bs ar = Ret (True, Group n c ms bl bs, ar)"
  using assms by (auto split: if_splits)

lemma parseNextArg_bound:
  "parseNextArg a = Ret a' \<Longrightarrow> argc a' = argc a \<and> position a' \<le> max (position a) (argc a)"
  by (auto simp: parseNextArg_def Let_def split: list.splits if_splits)

lemma parseNextArg_returns: "parseNextArg a \<noteq> OutOfFuel"
  by (auto simp: parseNextArg_def Let_def split: list.splits if_splits)

lemma parseSwitch_bound:
  "parseSwitch n c p a = Ret (ok, f', a') \<Longrightarrow>
     argc a' = argc a \<and> position a' \<le> max (position a) (argc a)"
  using parseNextArg_bound by (auto simp: parseSwitch_def split: if_splits outcome.splits)

lemma parseSwitch_returns: "parseSwitch n c p a \<noteq> OutOfFuel"
  using parseNextArg_returns[of a]
  by (auto simp: parseSwitch_def split: if_splits outcome.splits)

lemma parseSingleton_bound:
  assumes "parseSingleton n c T p v a = Ret (ok, f', a')"
  shows "argc a' = argc a \<and> position a' \<le> max (position a) (argc a)"
proof (cases "hasValue a")
  case True
  with assms parseNextArg_bound[of a] show ?thesis
    by (auto simp: parseSingleton_def split: option.splits outcome.splits)
next
  case False
  show ?thesis
  proof (cases "hasMoreArguments a")
    case nomore: False
    with False assms show ?thesis by (simp add: parseSingleton_def)
  next
    case True
    then have lt: "position a < argc a" by (simp add: hasMoreArguments_def)
    from assms False True obtain raw a1 where n: "nextRawArgument a = Ret (raw, a1)"
      by (cases "nextRawArgument a") (auto simp: parseSingleton_def)
    then have a1: "argc a1 = argc a" "position a1 = Suc (position a)"
      by (auto simp: nextRawArgument_def Let_def split: if_splits)
    show ?thesis
    proof (cases "ParseType T raw")
      case None
      with assms False True n a1 lt show ?thesis by (auto simp: parseSingleton_def)
    next
      case (Some x)
      with assms False True n obtain a2 where p: "parseNextArg a1 = Ret a2" and e: "a' = a2"
        by (cases "parseNextArg a1") (auto simp: parseSingleton_def)
      from parseNextArg_bound[OF p] a1 lt e show ?thesis by auto
    qed
  qed
qed

lemma parseSingleton_returns: "parseSingleton n c T p v a \<noteq> OutOfFuel"
proof -
  have 1: "parseNextArg x \<noteq> OutOfFuel" for x by (rule parseNextArg_returns)
  have 2: "nextRawArgument x \<noteq> OutOfFuel" for x by (simp add: nextRawArgument_def Let_def)
  show ?thesis
    using 1 2
    by (auto simp: parseSingleton_def split: option.splits outcome.splits prod.splits)
qed

lemma leaf_returns:
  assumes "leafType T"
  shows "parseArgsR (Suc k) (instantiate T n c) ar \<noteq> OutOfFuel"
    "parseArgsR (Suc k) (instantiate T n c) ar = Ret (ok, f', ar') \<Longrightarrow>
       argc ar' = argc ar \<and> position ar' \<le> max (position ar) (argc ar)"
proof -
  show "parseArgsR (Suc k) (instantiate T n c) ar \<noteq> OutOfFuel"
    using assms by (cases T) (simp_all add: parseSingleton_returns parseSwitch_returns)
  show "argc ar' = argc ar \<and> position ar' \<le> max (position ar) (argc ar)"
    if "parseArgsR (Suc k) (instantiate T n c) ar = Ret (ok, f', ar')"
    using assms that by (cases T) (auto dest: parseSingleton_bound parseSwitch_bound)
qed

lemma vector_leaf_terminates:
  "leafType T \<Longrightarrow> argc ar - position ar \<le> d \<Longrightarrow>
     parseArgsR (Suc (Suc d) + j) (Vector n c g r T e vs) ar \<noteq> OutOfFuel"
proof (induction d arbitrary: ar e vs)
  case 0
  let ?k = "Suc 0 + j"
  show ?case
  proof (cases "parseArgsR ?k (instantiate T n c) ar")
    case (Ret x)
    obtain ok flag ar' where x: "x = (ok, flag, ar')" by (cases x) auto
    from leaf_returns(2)[OF "0.prems"(1), of j n c ar ok flag ar'] Ret x "0.prems"(2)
    have "position ar' \<le> position ar" by auto
    moreover have "position ar \<le> position ar'" using Ret x by (auto dest: position_mono(1))
    ultimately have "tell ar = tell ar'" by (simp add: tell_def)
    with Ret x show ?thesis by simp
  next
    case UB
    then show ?thesis by simp
  next
    case OutOfFuel
    with leaf_returns(1)[OF "0.prems"(1), of j n c ar] show ?thesis by simp
  qed
next
  case (Suc d)
  let ?k = "Suc (Suc d) + j"
  show ?case
  proof (cases "parseArgsR ?k (instantiate T n c) ar")
    case (Ret x)
    obtain ok flag ar' where x: "x = (ok, flag, ar')" by (cases x) auto
    show ?thesis
    proof (cases "ok \<and> tell ar \<noteq> tell ar' \<and> g \<and> (\<not> hasAnyFlag ar' \<or> canReenter r ar' flag)")
      case False
      with Ret x show ?thesis by (auto split: if_splits)
    next
      case True
      from leaf_returns(2)[OF Suc.prems(1), of "Suc d + j" n c ar ok flag ar'] Ret x
      have b: "argc ar' = argc ar" "position ar' \<le> max (position ar) (argc ar)" by auto
      have "position ar \<le> position ar'" using Ret x by (auto dest: position_mono(1))
      with True have "position ar < position ar'" by (simp add: tell_def)
      with b Suc.prems(2) have "argc ar' - position ar' \<le> d" by auto
      from Suc.IH[OF Suc.prems(1) this, of True "vs @ [flag]"] True Ret x show ?thesis by simp
    qed
  next
    case UB
    then show ?thesis by simp
  next
    case OutOfFuel
    with leaf_returns(1)[OF Suc.prems(1), of "Suc d + j" n c ar] show ?thesis by simp
  qed
qed


lemma argvC_weights_loop:
  "groupLoop 5 ''lists'' (CHR 0x00)
       [Vector ''weights'' (CHR 0x00) True False (TPrim PInt32) False []] [(''weights'', 0)] []
       (onLongFlag argvC 2 ''weights'')
     = Ret (True,
         Group ''lists'' (CHR 0x00)
          [Vector ''weights'' (CHR 0x00) True False (TPrim PInt32) True
             [Prim ''weights'' (CHR 0x00) PInt32 True (VInt 1),
              Prim ''weights'' (CHR 0x00) PInt32 True (VInt 2),
              Prim ''weights'' (CHR 0x00) PInt32 True (VInt 3)]]
          [(''weights'', 0)] [],
         onLongFlag argvC 6 ''weights'')"
  by code_simp

lemma argvC_second_lists:
  "parseArgsR 7 (Vector ''lists'' (CHR 0x00) True True RepeatableGroup True
           [Group ''lists'' (CHR 0x00)
              [Vector ''weights'' (CHR 0x00) True False (TPrim PInt32) True
                 [Prim ''weights'' (CHR 0x00) PInt32 True (VInt 1),
                  Prim ''weights'' (CHR 0x00) PInt32 True (VInt 2),
                  Prim ''weights'' (CHR 0x00) PInt32 True (VInt 3)]]
              [(''weights'', 0)] []]) (onLongFlag argvC 6 ''weights'')
     = Ret (True,
         Vector ''lists'' (CHR 0x00) True True RepeatableGroup True
           [Group ''lists'' (CHR 0x00)
              [Vector ''weights'' (CHR 0x00) True False (TPrim PInt32) True
                 [Prim ''weights'' (CHR 0x00) PInt32 True (VInt 1),
                  Prim ''weights'' (CHR 0x00) PInt32 True (VInt 2),
                  Prim ''weights'' (CHR 0x00) PInt32 True (VInt 3)]]
              [(''weights'', 0)] [],
            Group ''lists'' (CHR 0x00)
              [Vector ''weights'' (CHR 0x00) True False (TPrim PInt32) True
                 [Prim ''weights'' (CHR 0x00) PInt32 True (VInt 4),
                  Prim ''weights'' (CHR 0x00) PInt32 True (VInt 5),
                  Prim ''weights'' (CHR 0x00) PInt32 True (VInt 6)]]
              [(''weights'', 0)] []],
         onLongFlag argvC 10 ''param'')"
  by code_simp

text \<open>
  C6. \<^verbatim>\<open>atCapacity()\<close> of a vector is \<^verbatim>\<open>entered && !reentrant\<close>, and a freshly
  constructed vector is not at capacity. Every consume call of the vector that
  returns, true or false, leaves it entered with its other fields unchanged, so
  afterwards it is at capacity exactly when it is not reentrant: a
  \<^verbatim>\<open>Sequential\<close> vector is at capacity after its first occurrence, an
  unconstrained or \<^verbatim>\<open>Repeated\<close> vector never is. The call does return or
  run into undefined behaviour: for a vector of primitives or switches a
  budget of two more than the arguments still to come is enough. A call whose
  element flag refuses the attached value returns false and has latched all
  the same.

  The latch is one-way through the whole tree. A node that is at capacity
  stays so over any consume call on it, and a node that is at capacity at some
  path of a tree is at capacity at that path after any consume call on the
  tree and after \<^verbatim>\<open>parseArgs\<close>. The group loop that delegates a token to a
  member vector ends with a group that holds this member entered, so at
  capacity exactly when it is not reentrant; and a loop that looks its token
  up to a member at capacity does not call it and returns.
\<close>

theorem vector_atCapacity_latch:
  "atCapacity (Vector n c g r T e vs) = (e \<and> \<not> r)
   \<and> \<not> atCapacity (instantiate (TVector g r T) n c)
   \<and> (parseArgsR k (Vector n c g r T e vs) ar = Ret (ok, f', ar') \<longrightarrow>
        (\<exists>vs'. f' = Vector n c g r T True vs') \<and> atCapacity f' = (\<not> r))
   \<and> (parseArgsR kt ft art = Ret (okt, ft', art') \<and> atCapacity ft \<longrightarrow> atCapacity ft')
   \<and> (leafType T \<longrightarrow>
        parseArgsR (Suc (Suc (argc ar - position ar)) + j) (Vector n c g r T e vs) ar \<noteq> OutOfFuel)
   \<and> (parseArgsR kt ft art = Ret (okt, ft', art') \<and> subnode p ft = Some h \<and> atCapacity h \<longrightarrow>
        (\<exists>h'. subnode p ft' = Some h' \<and> evolves h h' \<and> atCapacity h'))
   \<and> (parseArgs kt ft a v = Ret (okt, ft') \<and> subnode p ft = Some h \<and> atCapacity h \<longrightarrow>
        (\<exists>h'. subnode p ft' = Some h' \<and> evolves h h' \<and> atCapacity h'))
   \<and> (\<not> atEnd arg
        \<and> (if hasLongFlag arg then map_of bl (getLongFlag arg) else map_of bs (getShortFlag arg)) = Some i
        \<and> i < length ms \<and> ms ! i = Vector vn vc vg vr vT ve vvs \<and> \<not> atCapacity (ms ! i)
        \<and> groupLoop (Suc kg) gn gc ms bl bs arg = Ret (okg, fg, arg') \<longrightarrow>
        (\<exists>vs'. members fg ! i = Vector vn vc vg vr vT True vs')
        \<and> atCapacity (members fg ! i) = (\<not> vr))
   \<and> (\<not> atEnd arg
        \<and> (if hasLongFlag arg then map_of bl (getLongFlag arg) else map_of bs (getShortFlag arg)) = Some i
        \<and> i < length ms \<and> atCapacity (ms ! i) \<longrightarrow>
        groupLoop (Suc kg) gn gc ms bl bs arg = Ret (True, Group gn gc ms bl bs, arg))
   \<and> (hasValue ar \<and> ParseType P (getValue ar) = None \<longrightarrow>
        parseArgsR (Suc (Suc k)) (Vector n c g r (TPrim P) e vs) ar
          = Ret (False, Vector n c g r (TPrim P) True vs, ar))"
proof -
  have 3: "(\<exists>vs'. f' = Vector n c g r T True vs') \<and> atCapacity f' = (\<not> r)"
    if "parseArgsR k (Vector n c g r T e vs) ar = Ret (ok, f', ar')"
    using vector_entered[OF that] by auto
  have 4: "atCapacity ft'" if "parseArgsR kt ft art = Ret (okt, ft', art')" "atCapacity ft"
    using parseArgsR_evolves[OF that(1)] that(2) by (rule evolves_atCapacity(1))
  have 5: "parseArgsR (Suc (Suc (argc ar - position ar)) + j) (Vector n c g r T e vs) ar \<noteq> OutOfFuel"
    if "leafType T"
    using that by (rule vector_leaf_terminates) simp
  have sub: "\<exists>h'. subnode p ft' = Some h' \<and> evolves h h' \<and> atCapacity h'"
    if "evolves ft ft'" "subnode p ft = Some h" "atCapacity h" for ft'
  proof -
    from evolves_subnode[OF that(1,2)] obtain h' where h': "subnode p ft' = Some h'" "evolves h h'"
      by blast
    from h'(2) that(3) have "atCapacity h'" by (rule evolves_atCapacity(1))
    with h' show ?thesis by blast
  qed
  have 6: "\<exists>h'. subnode p ft' = Some h' \<and> evolves h h' \<and> atCapacity h'"
    if "parseArgsR kt ft art = Ret (okt, ft', art')" "subnode p ft = Some h" "atCapacity h"
    using sub[OF parseArgsR_evolves[OF that(1)] that(2,3)] .
  have 7: "\<exists>h'. subnode p ft' = Some h' \<and> evolves h h' \<and> atCapacity h'"
    if "parseArgs kt ft a v = Ret (okt, ft')" "subnode p ft = Some h" "atCapacity h"
    using sub[OF parseArgs_evolves[OF that(1)] that(2,3)] .
  have 8: "(\<exists>vs'. members fg ! i = Vector vn vc vg vr vT True vs')
        \<and> atCapacity (members fg ! i) = (\<not> vr)"
    if "\<not> atEnd arg"
      "(if hasLongFlag arg then map_of bl (getLongFlag arg) else map_of bs (getShortFlag arg)) = Some i"
      "i < length ms" "ms ! i = Vector vn vc vg vr vT ve vvs" "\<not> atCapacity (ms ! i)"
      "groupLoop (Suc kg) gn gc ms bl bs arg = Ret (okg, fg, arg')"
    using groupLoop_member_entered[OF that] by auto
  have 9: "groupLoop (Suc kg) gn gc ms bl bs arg = Ret (True, Group gn gc ms bl bs, arg)"
    if "\<not> atEnd arg"
      "(if hasLongFlag arg then map_of bl (getLongFlag arg) else map_of bs (getShortFlag arg)) = Some i"
      "i < length ms" "atCapacity (ms ! i)"
    using that by (rule groupLoop_at_capacity)
  have 1: "atCapacity (Vector n c g r T e vs) = (e \<and> \<not> r)" by simp
  have 2: "\<not> atCapacity (instantiate (TVector g r T) n c)" by simp
  have 10: "parseArgsR (Suc (Suc k)) (Vector n c g r (TPrim P) e vs) ar
          = Ret (False, Vector n c g r (TPrim P) True vs, ar)"
    if "hasValue ar" "ParseType P (getValue ar) = None"
    using that by (simp add: parseSingleton_def)
  from 1 2 3 4 5 6 7 8 9 10 show ?thesis by blast
qed


theorem vector_atCapacity_latch_witness:
  "(case parseArgsR 4 (Vector ''weights'' (CHR 0x00) True False (TPrim PInt32) False [])
            (onLongFlag argvC 2 ''weights'') of
      Ret (ok, f', ar') \<Rightarrow> atCapacity f' | UB \<Rightarrow> False | OutOfFuel \<Rightarrow> False)
   \<and> parseArgsR 17 (Vector ''weights'' (CHR 0x00) True False (TPrim PInt32) False [])
         (onLongFlag argvC 2 ''weights'') \<noteq> OutOfFuel
   \<and> (case parseArgsR 7 (Vector ''lists'' (CHR 0x00) True True RepeatableGroup True
             [Group ''lists'' (CHR 0x00) [Vector ''weights'' (CHR 0x00) True False (TPrim PInt32) True
           [Prim ''weights'' (CHR 0x00) PInt32 True (VInt 1),
            Prim ''weights'' (CHR 0x00) PInt32 True (VInt 2),
            Prim ''weights'' (CHR 0x00) PInt32 True (VInt 3)]] [(''weights'', 0)] []])
            (onLongFlag argvC 6 ''weights'') of
        Ret (ok, f', ar') \<Rightarrow>
          (case subnode [0, 0] f' of Some h \<Rightarrow> atCapacity h | None \<Rightarrow> False)
          \<and> length (vectorValue f') = 2
      | UB \<Rightarrow> False | OutOfFuel \<Rightarrow> False)
   \<and> (case parseArgs 2 (Group [] (CHR 0x00) [Vector ''weights'' (CHR 0x00) True False (TPrim PInt32) True
           [Prim ''weights'' (CHR 0x00) PInt32 True (VInt 1),
            Prim ''weights'' (CHR 0x00) PInt32 True (VInt 2),
            Prim ''weights'' (CHR 0x00) PInt32 True (VInt 3)]] [(''weights'', 0)] []) 3
              [''prog'', ''--weights'', ''9''] of
        Ret (ok, f') \<Rightarrow> \<not> ok \<and> (case subnode [0] f' of Some h \<Rightarrow> atCapacity h | None \<Rightarrow> False)
      | UB \<Rightarrow> False | OutOfFuel \<Rightarrow> False)
   \<and> (case groupLoop 5 ''lists'' (CHR 0x00)
             [Vector ''weights'' (CHR 0x00) True False (TPrim PInt32) False []] [(''weights'', 0)] []
             (onLongFlag argvC 2 ''weights'') of
        Ret (ok, f', ar') \<Rightarrow> atCapacity (members f' ! 0)
      | UB \<Rightarrow> False | OutOfFuel \<Rightarrow> False)
   \<and> (case parseArgsR 2 (Vector ''weights'' (CHR 0x00) True False (TPrim PInt32) False [])
            (onLongFlagValue argvC 2 ''weights'' ''x'') of
        Ret (ok, f', ar') \<Rightarrow> \<not> ok \<and> atCapacity f'
      | UB \<Rightarrow> False | OutOfFuel \<Rightarrow> False)
   \<and> groupLoop 1 ''lists'' (CHR 0x00) [Vector ''weights'' (CHR 0x00) True False (TPrim PInt32) True
           [Prim ''weights'' (CHR 0x00) PInt32 True (VInt 1),
            Prim ''weights'' (CHR 0x00) PInt32 True (VInt 2),
            Prim ''weights'' (CHR 0x00) PInt32 True (VInt 3)]] [(''weights'', 0)] [] (onLongFlag argvC 6 ''weights'')
       = Ret (True, Group ''lists'' (CHR 0x00) [Vector ''weights'' (CHR 0x00) True False (TPrim PInt32) True
           [Prim ''weights'' (CHR 0x00) PInt32 True (VInt 1),
            Prim ''weights'' (CHR 0x00) PInt32 True (VInt 2),
            Prim ''weights'' (CHR 0x00) PInt32 True (VInt 3)]] [(''weights'', 0)] [], onLongFlag argvC 6 ''weights'')"
proof -
  let ?V = "Vector ''weights'' (CHR 0x00) True False (TPrim PInt32) False []"
  let ?W = "Vector ''weights'' (CHR 0x00) True False (TPrim PInt32) True
           [Prim ''weights'' (CHR 0x00) PInt32 True (VInt 1),
            Prim ''weights'' (CHR 0x00) PInt32 True (VInt 2),
            Prim ''weights'' (CHR 0x00) PInt32 True (VInt 3)]"
  let ?L = "Vector ''lists'' (CHR 0x00) True True RepeatableGroup True
             [Group ''lists'' (CHR 0x00) [?W] [(''weights'', 0)] []]"
  let ?R = "Group [] (CHR 0x00) [?W] [(''weights'', 0)] []"
  note T = vector_atCapacity_latch
  have r2: "\<not> atEnd (onLongFlag argvC 2 ''weights'')" "hasLongFlag (onLongFlag argvC 2 ''weights'')"
    "getLongFlag (onLongFlag argvC 2 ''weights'') = ''weights''"
    "argc (onLongFlag argvC 2 ''weights'') = 17" "position (onLongFlag argvC 2 ''weights'') = 2"
    "\<not> atEnd (onLongFlag argvC 6 ''weights'')" "hasLongFlag (onLongFlag argvC 6 ''weights'')"
    "getLongFlag (onLongFlag argvC 6 ''weights'') = ''weights''"
    by (simp_all add: onLongFlag_def atEnd_def hasLongFlag_def getLongFlag_def argvC_def)
  have a: "atCapacity ?W"
    using T[where n = "''weights''" and c = "CHR 0x00" and g = True and r = False
        and T = "TPrim PInt32" and e = False and vs = "[]" and k = 4
        and ar = "onLongFlag argvC 2 ''weights''" and ok = True and f' = ?W
        and ar' = "onLongFlag argvC 6 ''weights''",
        THEN conjunct2, THEN conjunct2, THEN conjunct1, THEN mp, OF argvC_weights]
    by simp
  have b: "parseArgsR 17 ?V (onLongFlag argvC 2 ''weights'') \<noteq> OutOfFuel"
    using T[where T = "TPrim PInt32" and ar = "onLongFlag argvC 2 ''weights''" and j = 0
        and n = "''weights''" and c = "CHR 0x00" and g = True and r = False and e = False
        and vs = "[]",
        THEN conjunct2, THEN conjunct2, THEN conjunct2, THEN conjunct2, THEN conjunct1, THEN mp]
    by (simp add: r2 del: parseArgsR.simps)
  have sl: "subnode [0, 0] ?L = Some ?W" by simp
  have c: "\<exists>h'. subnode [0, 0]
             (Vector ''lists'' (CHR 0x00) True True RepeatableGroup True
               [Group ''lists'' (CHR 0x00) [?W] [(''weights'', 0)] [],
                Group ''lists'' (CHR 0x00)
                  [Vector ''weights'' (CHR 0x00) True False (TPrim PInt32) True
                     [Prim ''weights'' (CHR 0x00) PInt32 True (VInt 4),
                      Prim ''weights'' (CHR 0x00) PInt32 True (VInt 5),
                      Prim ''weights'' (CHR 0x00) PInt32 True (VInt 6)]]
                  [(''weights'', 0)] []]) = Some h' \<and> evolves ?W h' \<and> atCapacity h'"
    by (rule T[where kt = 7 and ft = ?L and art = "onLongFlag argvC 6 ''weights''" and okt = True
          and art' = "onLongFlag argvC 10 ''param''" and p = "[0, 0]" and h = ?W,
          THEN conjunct2, THEN conjunct2, THEN conjunct2, THEN conjunct2, THEN conjunct2,
          THEN conjunct1, THEN mp])
       (use argvC_second_lists sl a in simp)
  have run: "parseArgs 2 ?R 3 [''prog'', ''--weights'', ''9''] = Ret (False, ?R)"
    by code_simp
  have d: "\<exists>h'. subnode [0] ?R = Some h' \<and> evolves ?W h' \<and> atCapacity h'"
    by (rule T[where kt = 2 and ft = ?R and a = 3 and v = "[''prog'', ''--weights'', ''9'']"
          and okt = False and p = "[0]" and h = ?W,
          THEN conjunct2, THEN conjunct2, THEN conjunct2, THEN conjunct2, THEN conjunct2,
          THEN conjunct2, THEN conjunct1, THEN mp])
       (use run a in simp)
  have e: "atCapacity (members (Group ''lists'' (CHR 0x00) [?W] [(''weights'', 0)] []) ! 0) = (\<not> False)"
    using T[where arg = "onLongFlag argvC 2 ''weights''" and bl = "[(''weights'', 0)]" and bs = "[]"
        and i = 0 and ms = "[?V]" and vn = "''weights''" and vc = "CHR 0x00" and vg = True
        and vr = False and vT = "TPrim PInt32" and ve = False and vvs = "[]" and kg = 4
        and gn = "''lists''" and gc = "CHR 0x00" and okg = True
        and fg = "Group ''lists'' (CHR 0x00) [?W] [(''weights'', 0)] []"
        and arg' = "onLongFlag argvC 6 ''weights''",
        THEN conjunct2, THEN conjunct2, THEN conjunct2, THEN conjunct2, THEN conjunct2,
        THEN conjunct2, THEN conjunct2, THEN conjunct1, THEN mp, THEN conjunct2]
      argvC_weights_loop r2
    by (simp del: groupLoop.simps)
  have f: "groupLoop 1 ''lists'' (CHR 0x00) [?W] [(''weights'', 0)] [] (onLongFlag argvC 6 ''weights'')
       = Ret (True, Group ''lists'' (CHR 0x00) [?W] [(''weights'', 0)] [], onLongFlag argvC 6 ''weights'')"
    using T[where arg = "onLongFlag argvC 6 ''weights''" and bl = "[(''weights'', 0)]" and bs = "[]"
        and i = 0 and ms = "[?W]" and kg = 0 and gn = "''lists''" and gc = "CHR 0x00",
        THEN conjunct2, THEN conjunct2, THEN conjunct2, THEN conjunct2, THEN conjunct2,
        THEN conjunct2, THEN conjunct2, THEN conjunct2, THEN conjunct1, THEN mp]
      r2 a
    by (simp del: groupLoop.simps)
  have x: "hasValue (onLongFlagValue argvC 2 ''weights'' ''x'')"
    "ParseType PInt32 (getValue (onLongFlagValue argvC 2 ''weights'' ''x'')) = None"
    by code_simp+
  have h: "parseArgsR 2 ?V (onLongFlagValue argvC 2 ''weights'' ''x'')
      = Ret (False, Vector ''weights'' (CHR 0x00) True False (TPrim PInt32) True [],
          onLongFlagValue argvC 2 ''weights'' ''x'')"
    using T[where ar = "onLongFlagValue argvC 2 ''weights'' ''x''" and P = PInt32 and k = 0
        and n = "''weights''" and c = "CHR 0x00" and g = True and r = False and e = False
        and vs = "[]",
        THEN conjunct2, THEN conjunct2, THEN conjunct2, THEN conjunct2, THEN conjunct2,
        THEN conjunct2, THEN conjunct2, THEN conjunct2, THEN conjunct2, THEN mp] x
    by (simp add: numeral_2_eq_2 del: parseArgsR.simps)
  from a b c d e f h show ?thesis
    by (auto simp: argvC_weights argvC_second_lists run argvC_weights_loop
        simp del: parseArgsR.simps groupLoop.simps)
qed

subsection \<open>C2: the progress check of the group loop\<close>

lemma PB_p:
  "parseArgsR 2 (Switch [] (CHR ''p'') False) (onShortFlag [''prog'', ''-pb''] 1 (CHR ''p'') ''b'')
     = Ret (True, Switch [] (CHR ''p'') True, onShortFlag [''prog'', ''-pb''] 1 (CHR ''b'') [])"
  by code_simp

lemma PB_loop:
  "groupLoop 3 [] (CHR 0x00) [Switch [] (CHR ''p'') False, Switch [] (CHR ''b'') False] []
       [(CHR ''b'', 1), (CHR ''p'', 0)] (onShortFlag [''prog'', ''-pb''] 1 (CHR ''p'') ''b'')
     = Ret (True,
         Group [] (CHR 0x00) [Switch [] (CHR ''p'') True, Switch [] (CHR ''b'') True] []
           [(CHR ''b'', 1), (CHR ''p'', 0)],
         onEnd [''prog'', ''-pb''])"
  by code_simp

lemma PB_loop_rest:
  "groupLoop 2 [] (CHR 0x00) [Switch [] (CHR ''p'') True, Switch [] (CHR ''b'') False] []
       [(CHR ''b'', 1), (CHR ''p'', 0)] (onShortFlag [''prog'', ''-pb''] 1 (CHR ''b'') [])
     = Ret (True,
         Group [] (CHR 0x00) [Switch [] (CHR ''p'') True, Switch [] (CHR ''b'') True] []
           [(CHR ''b'', 1), (CHR ''p'', 0)],
         onEnd [''prog'', ''-pb''])"
  by code_simp

text \<open>
  C2, as stated, fails for a short flag. In \<^verbatim>\<open>-pb\<close> the switch \<^verbatim>\<open>p\<close> consumes
  with success and \<^verbatim>\<open>tell()\<close> has not moved, since \<^verbatim>\<open>b\<close> is pending in the
  same argument; the group does not return there with \<^verbatim>\<open>b\<close> unset.
\<close>

theorem group_short_flag_no_progress_goes_on:
  "\<not> atEnd (onShortFlag [''prog'', ''-pb''] 1 (CHR ''p'') ''b'')
   \<and> hasShortFlag (onShortFlag [''prog'', ''-pb''] 1 (CHR ''p'') ''b'')
   \<and> map_of [(CHR ''b'', 1), (CHR ''p'', 0 :: nat)]
        (getShortFlag (onShortFlag [''prog'', ''-pb''] 1 (CHR ''p'') ''b'')) = Some 0
   \<and> parseArgsR 2 (Switch [] (CHR ''p'') False) (onShortFlag [''prog'', ''-pb''] 1 (CHR ''p'') ''b'')
       = Ret (True, Switch [] (CHR ''p'') True, onShortFlag [''prog'', ''-pb''] 1 (CHR ''b'') [])
   \<and> tell (onShortFlag [''prog'', ''-pb''] 1 (CHR ''b'') [])
       = tell (onShortFlag [''prog'', ''-pb''] 1 (CHR ''p'') ''b'')
   \<and> groupLoop 3 [] (CHR 0x00) [Switch [] (CHR ''p'') False, Switch [] (CHR ''b'') False] []
         [(CHR ''b'', 1), (CHR ''p'', 0)] (onShortFlag [''prog'', ''-pb''] 1 (CHR ''p'') ''b'')
       \<noteq> Ret (True,
             Group [] (CHR 0x00) [Switch [] (CHR ''p'') True, Switch [] (CHR ''b'') False] []
               [(CHR ''b'', 1), (CHR ''p'', 0)],
             onShortFlag [''prog'', ''-pb''] 1 (CHR ''b'') [])"
proof -
  have "\<not> atEnd (onShortFlag [''prog'', ''-pb''] 1 (CHR ''p'') ''b'')"
    "hasShortFlag (onShortFlag [''prog'', ''-pb''] 1 (CHR ''p'') ''b'')"
    "map_of [(CHR ''b'', 1), (CHR ''p'', 0 :: nat)]
        (getShortFlag (onShortFlag [''prog'', ''-pb''] 1 (CHR ''p'') ''b'')) = Some 0"
    "tell (onShortFlag [''prog'', ''-pb''] 1 (CHR ''b'') [])
       = tell (onShortFlag [''prog'', ''-pb''] 1 (CHR ''p'') ''b'')"
    by code_simp+
  then show ?thesis unfolding PB_loop PB_p by simp
qed


lemma argvA_alive:
  "parseArgsR 6 (Prim ''alive'' (CHR 0x00) PBool False (VBool False))
       (onLongFlagValue argvA 1 ''alive'' ''true'')
     = Ret (True, Prim ''alive'' (CHR 0x00) PBool True (VBool True), onLongFlag argvA 2 ''param'')"
  by code_simp

lemma argvA_loop_rest:
  "groupLoop 6 [] (CHR 0x00)
       [Prim ''alive'' (CHR 0x00) PBool True (VBool True),
        Prim ''param'' (CHR 0x00) PInt64 False (VInt 0),
        Vector ''ind'' (CHR 0x00) True True (TPrim PInt32) False []]
       [(''ind'', 2), (''param'', 1), (''alive'', 0)] [] (onLongFlag argvA 2 ''param'')
     = Ret (True,
         Group [] (CHR 0x00)
           [Prim ''alive'' (CHR 0x00) PBool True (VBool True),
            Prim ''param'' (CHR 0x00) PInt64 True (VInt 20),
            Vector ''ind'' (CHR 0x00) True True (TPrim PInt32) True
              [Prim ''ind'' (CHR 0x00) PInt32 True (VInt 10),
               Prim ''ind'' (CHR 0x00) PInt32 True (VInt 11)]]
           [(''ind'', 2), (''param'', 1), (''alive'', 0)] [],
         onEnd argvA)"
  by code_simp

text \<open>
  C2, amended. When the member matched by the current token consumes with
  success, the group compares \<^verbatim>\<open>tell()\<close> for a long flag only: it returns
  success if the position has not moved and goes on with the loop if it has.
  For a short flag it goes on with the loop whether the position has moved or
  not.
\<close>

theorem group_loop_progress_check:
  assumes "\<not> atEnd ar" and "i < length ms" and "\<not> atCapacity (ms ! i)"
    and "parseArgsR k (ms ! i) ar = Ret (True, m, ar')"
  shows "(hasLongFlag ar \<and> map_of bl (getLongFlag ar) = Some i \<longrightarrow>
            groupLoop (Suc k) n c ms bl bs ar =
              (if tell ar' = tell ar then Ret (True, Group n c (ms[i := m]) bl bs, ar')
               else groupLoop k n c (ms[i := m]) bl bs ar'))
       \<and> (\<not> hasLongFlag ar \<and> map_of bs (getShortFlag ar) = Some i \<longrightarrow>
            groupLoop (Suc k) n c ms bl bs ar = groupLoop k n c (ms[i := m]) bl bs ar')"
  using assms by simp

theorem group_loop_progress_check_witness:
  "groupLoop (Suc 6) [] (CHR 0x00)
       [Prim ''alive'' (CHR 0x00) PBool False (VBool False),
        Prim ''param'' (CHR 0x00) PInt64 False (VInt 0),
        Vector ''ind'' (CHR 0x00) True True (TPrim PInt32) False []]
       [(''ind'', 2), (''param'', 1), (''alive'', 0)] []
       (onLongFlagValue argvA 1 ''alive'' ''true'')
     = Ret (True,
         Group [] (CHR 0x00)
           [Prim ''alive'' (CHR 0x00) PBool True (VBool True),
            Prim ''param'' (CHR 0x00) PInt64 True (VInt 20),
            Vector ''ind'' (CHR 0x00) True True (TPrim PInt32) True
              [Prim ''ind'' (CHR 0x00) PInt32 True (VInt 10),
               Prim ''ind'' (CHR 0x00) PInt32 True (VInt 11)]]
           [(''ind'', 2), (''param'', 1), (''alive'', 0)] [],
         onEnd argvA)
   \<and> groupLoop (Suc 2) [] (CHR 0x00)
         [Switch [] (CHR ''p'') False, Switch [] (CHR ''b'') False] []
         [(CHR ''b'', 1), (CHR ''p'', 0)] (onShortFlag [''prog'', ''-pb''] 1 (CHR ''p'') ''b'')
       = Ret (True,
           Group [] (CHR 0x00) [Switch [] (CHR ''p'') True, Switch [] (CHR ''b'') True] []
             [(CHR ''b'', 1), (CHR ''p'', 0)],
           onEnd [''prog'', ''-pb''])"
proof -
  let ?msA = "[Prim ''alive'' (CHR 0x00) PBool False (VBool False),
        Prim ''param'' (CHR 0x00) PInt64 False (VInt 0),
        Vector ''ind'' (CHR 0x00) True True (TPrim PInt32) False []]"
  let ?arA = "onLongFlagValue argvA 1 ''alive'' ''true''"
  let ?msP = "[Switch [] (CHR ''p'') False, Switch [] (CHR ''b'') False]"
  let ?arP = "onShortFlag [''prog'', ''-pb''] 1 (CHR ''p'') ''b''"
  have a: "\<not> atEnd ?arA" "0 < length ?msA" "\<not> atCapacity (?msA ! 0)"
    "hasLongFlag ?arA" "map_of [(''ind'', 2), (''param'', 1), (''alive'', 0 :: nat)] (getLongFlag ?arA) = Some 0"
    "tell (onLongFlag argvA 2 ''param'') \<noteq> tell ?arA"
    by code_simp+
  have pa: "parseArgsR 6 (?msA ! 0) ?arA
     = Ret (True, Prim ''alive'' (CHR 0x00) PBool True (VBool True), onLongFlag argvA 2 ''param'')"
    using argvA_alive by simp
  have p: "\<not> atEnd ?arP" "0 < length ?msP" "\<not> atCapacity (?msP ! 0)"
    "\<not> hasLongFlag ?arP" "map_of [(CHR ''b'', 1), (CHR ''p'', 0 :: nat)] (getShortFlag ?arP) = Some 0"
    by code_simp+
  have pp: "parseArgsR 2 (?msP ! 0) ?arP
     = Ret (True, Switch [] (CHR ''p'') True, onShortFlag [''prog'', ''-pb''] 1 (CHR ''b'') [])"
    using PB_p by simp
  from group_loop_progress_check[OF a(1-3) pa, where bl = "[(''ind'', 2), (''param'', 1), (''alive'', 0)]"
      and bs = "[]" and n = "[]" and c = "CHR 0x00"]
    a(4-6) argvA_loop_rest
  have 1: "groupLoop (Suc 6) [] (CHR 0x00) ?msA [(''ind'', 2), (''param'', 1), (''alive'', 0)] [] ?arA
     = Ret (True,
         Group [] (CHR 0x00)
           [Prim ''alive'' (CHR 0x00) PBool True (VBool True),
            Prim ''param'' (CHR 0x00) PInt64 True (VInt 20),
            Vector ''ind'' (CHR 0x00) True True (TPrim PInt32) True
              [Prim ''ind'' (CHR 0x00) PInt32 True (VInt 10),
               Prim ''ind'' (CHR 0x00) PInt32 True (VInt 11)]]
           [(''ind'', 2), (''param'', 1), (''alive'', 0)] [],
         onEnd argvA)"
    by (simp del: groupLoop.simps parseArgsR.simps)
  from group_loop_progress_check[OF p(1-3) pp, where bl = "[]"
      and bs = "[(CHR ''b'', 1), (CHR ''p'', 0)]" and n = "[]" and c = "CHR 0x00"]
    p(4-5) PB_loop_rest
  have 2: "groupLoop (Suc 2) [] (CHR 0x00) ?msP [] [(CHR ''b'', 1), (CHR ''p'', 0)] ?arP
       = Ret (True,
           Group [] (CHR 0x00) [Switch [] (CHR ''p'') True, Switch [] (CHR ''b'') True] []
             [(CHR ''b'', 1), (CHR ''p'', 0)],
           onEnd [''prog'', ''-pb''])"
    by (simp del: groupLoop.simps parseArgsR.simps)
  from 1 2 show ?thesis by (rule conjI)
qed


subsection \<open>C8: a switch given a value\<close>

lemma failedE: "failed r \<Longrightarrow> \<exists>f ar. r = Ret (False, f, ar)"
  by (auto simp: failed_def split: outcome.splits)

text \<open>
  C8. A switch that is asked to consume a token with an attached value returns
  false and changes neither itself, so \<^verbatim>\<open>present\<close> stays as it was, nor the
  reader. The failure reaches the caller of \<^verbatim>\<open>parseArgs\<close>: a vector fails when
  its element fails, and when the call of itself that ends its body fails; the
  group loop fails when the member it delegates to fails, and when a later
  iteration fails; a group fails when its loop fails; \<^verbatim>\<open>parseArgs\<close> returns
  false when the root fails.
\<close>

theorem switch_attached_value_fails:
  assumes "hasValue ar"
  shows "parseArgsR (Suc k) (Switch n c p) ar = Ret (False, Switch n c p, ar)
    \<and> (failed (parseArgsR kv (instantiate T vn vc) arv) \<longrightarrow>
          failed (parseArgsR (Suc kv) (Vector vn vc g r T e vs) arv))
    \<and> (parseArgsR kv (instantiate T vn vc) arv = Ret (True, flag, arv') \<and> tell arv \<noteq> tell arv'
          \<and> g \<and> (\<not> hasAnyFlag arv' \<or> canReenter r arv' flag)
          \<and> failed (parseArgsR kv (Vector vn vc g r T True (vs @ [flag])) arv') \<longrightarrow>
          failed (parseArgsR (Suc kv) (Vector vn vc g r T e vs) arv))
    \<and> (\<not> atEnd arg \<and> i < length ms \<and> \<not> atCapacity (ms ! i)
          \<and> (if hasLongFlag arg then map_of bl (getLongFlag arg) else map_of bs (getShortFlag arg)) = Some i
          \<and> failed (parseArgsR kg (ms ! i) arg) \<longrightarrow>
          failed (groupLoop (Suc kg) gn gc ms bl bs arg))
    \<and> (\<not> atEnd arg \<and> i < length ms \<and> \<not> atCapacity (ms ! i)
          \<and> (if hasLongFlag arg then map_of bl (getLongFlag arg) else map_of bs (getShortFlag arg)) = Some i
          \<and> parseArgsR kg (ms ! i) arg = Ret (True, m, arg')
          \<and> (hasLongFlag arg \<longrightarrow> tell arg' \<noteq> tell arg)
          \<and> failed (groupLoop kg gn gc (ms[i := m]) bl bs arg') \<longrightarrow>
          failed (groupLoop (Suc kg) gn gc ms bl bs arg))
    \<and> (failed (groupLoop ke gn gc ms bl bs (if ownName gn gc are then are' else are))
          \<and> (ownName gn gc are \<longrightarrow> parseNextArg are = Ret are') \<longrightarrow>
          failed (parseArgsR (Suc ke) (Group gn gc ms bl bs) are))
    \<and> (2 \<le> a \<and> parseNextArg (newArgReader a v) = Ret arp \<and> parseArgsR kp f arp = Ret (False, f', arp') \<longrightarrow>
          parseArgs kp f a v = Ret (False, f'))"
proof -
  have 1: "parseArgsR (Suc k) (Switch n c p) ar = Ret (False, Switch n c p, ar)"
    using assms by (simp add: parseSwitch_def)
  have 2: "failed (parseArgsR (Suc kv) (Vector vn vc g r T e vs) arv)"
    if "failed (parseArgsR kv (instantiate T vn vc) arv)"
    using failedE[OF that] by (auto simp: failed_def)
  have 3: "failed (parseArgsR (Suc kv) (Vector vn vc g r T e vs) arv)"
    if "parseArgsR kv (instantiate T vn vc) arv = Ret (True, flag, arv')" "tell arv \<noteq> tell arv'"
      "g" "\<not> hasAnyFlag arv' \<or> canReenter r arv' flag"
      "failed (parseArgsR kv (Vector vn vc g r T True (vs @ [flag])) arv')"
    using that by auto
  have 4: "failed (groupLoop (Suc kg) gn gc ms bl bs arg)"
    if "\<not> atEnd arg" "i < length ms" "\<not> atCapacity (ms ! i)"
      "(if hasLongFlag arg then map_of bl (getLongFlag arg) else map_of bs (getShortFlag arg)) = Some i"
      "failed (parseArgsR kg (ms ! i) arg)"
    using that(1-4) failedE[OF that(5)] by (auto simp: failed_def split: if_splits)
  have 5: "failed (groupLoop (Suc kg) gn gc ms bl bs arg)"
    if "\<not> atEnd arg" "i < length ms" "\<not> atCapacity (ms ! i)"
      "(if hasLongFlag arg then map_of bl (getLongFlag arg) else map_of bs (getShortFlag arg)) = Some i"
      "parseArgsR kg (ms ! i) arg = Ret (True, m, arg')"
      "hasLongFlag arg \<longrightarrow> tell arg' \<noteq> tell arg"
      "failed (groupLoop kg gn gc (ms[i := m]) bl bs arg')"
    using that by (auto split: if_splits)
  have 6: "failed (parseArgsR (Suc ke) (Group gn gc ms bl bs) are)"
    if "failed (groupLoop ke gn gc ms bl bs (if ownName gn gc are then are' else are))"
      "ownName gn gc are \<longrightarrow> parseNextArg are = Ret are'"
    using that by (auto simp: failed_def)
  have 7: "parseArgs kp f a v = Ret (False, f')"
    if "2 \<le> a" "parseNextArg (newArgReader a v) = Ret arp" "parseArgsR kp f arp = Ret (False, f', arp')"
    using that by (simp add: parseArgs_def)
  from 1 2 3 4 5 6 7 show ?thesis by blast
qed

theorem switch_attached_value_fails_witness:
  "parseArgsR (Suc 0) (Switch ''verbose'' (CHR 0x00) False) (onLongFlagValue argvW 3 ''verbose'' ''x'')
     = Ret (False, Switch ''verbose'' (CHR 0x00) False, onLongFlagValue argvW 3 ''verbose'' ''x'')
   \<and> failed (parseArgsR (Suc 1)
        (Vector ''verbose'' (CHR 0x00) True True TSwitch True [Switch ''verbose'' (CHR 0x00) True])
        (onLongFlagValue argvW 3 ''verbose'' ''x''))
   \<and> failed (parseArgsR (Suc 2) (Vector ''verbose'' (CHR 0x00) True True TSwitch False [])
        (onLongFlag argvW 2 ''verbose''))
   \<and> failed (groupLoop (Suc 3) [] (CHR 0x00)
        [Switch ''toggle'' (CHR 0x00) True, Vector ''verbose'' (CHR 0x00) True True TSwitch False []]
        [(''verbose'', 1), (''toggle'', 0)] [] (onLongFlag argvW 2 ''verbose''))
   \<and> failed (groupLoop (Suc 4) [] (CHR 0x00)
        [Switch ''toggle'' (CHR 0x00) False, Vector ''verbose'' (CHR 0x00) True True TSwitch False []]
        [(''verbose'', 1), (''toggle'', 0)] [] (onLongFlag argvW 1 ''toggle''))
   \<and> failed (parseArgsR (Suc 5)
        (Group [] (CHR 0x00)
           [Switch ''toggle'' (CHR 0x00) False, Vector ''verbose'' (CHR 0x00) True True TSwitch False []]
           [(''verbose'', 1), (''toggle'', 0)] [])
        (onLongFlag argvW 1 ''toggle''))
   \<and> parseArgs 6 W 4 argvW
       = Ret (False,
           Group [] (CHR 0x00)
             [Switch ''toggle'' (CHR 0x00) True,
              Vector ''verbose'' (CHR 0x00) True True TSwitch True [Switch ''verbose'' (CHR 0x00) True]]
             [(''verbose'', 1), (''toggle'', 0)] [])"
proof -
  let ?r0 = "onLongFlag argvW 1 ''toggle''"
  let ?r1 = "onLongFlag argvW 2 ''verbose''"
  let ?r2 = "onLongFlagValue argvW 3 ''verbose'' ''x''"
  let ?bl = "[(''verbose'', 1 :: nat), (''toggle'', 0)]"
  let ?V = "Vector ''verbose'' (CHR 0x00) True True TSwitch False []"
  have hv: "hasValue ?r2" by code_simp
  note T = switch_attached_value_fails[OF hv]
  have c1: "parseArgsR (Suc 0) (Switch ''verbose'' (CHR 0x00) False) ?r2
     = Ret (False, Switch ''verbose'' (CHR 0x00) False, ?r2)"
    by (rule T[THEN conjunct1])
  have c2: "failed (parseArgsR (Suc 1)
        (Vector ''verbose'' (CHR 0x00) True True TSwitch True [Switch ''verbose'' (CHR 0x00) True]) ?r2)"
    by (rule T[THEN conjunct2, THEN conjunct1, THEN mp]) code_simp
  have c3: "failed (parseArgsR (Suc 2) ?V ?r1)"
    by (rule T[where flag = "Switch ''verbose'' (CHR 0x00) True" and arv' = ?r2, THEN conjunct2, THEN conjunct2, THEN conjunct1, THEN mp]) code_simp
  have c4: "failed (groupLoop (Suc 3) [] (CHR 0x00) [Switch ''toggle'' (CHR 0x00) True, ?V] ?bl [] ?r1)"
    by (rule T[where i = 1, THEN conjunct2, THEN conjunct2, THEN conjunct2, THEN conjunct1, THEN mp]) code_simp
  have c5: "failed (groupLoop (Suc 4) [] (CHR 0x00) [Switch ''toggle'' (CHR 0x00) False, ?V] ?bl [] ?r0)"
    by (rule T[where i = 0 and m = "Switch ''toggle'' (CHR 0x00) True" and arg' = ?r1, THEN conjunct2, THEN conjunct2, THEN conjunct2, THEN conjunct2, THEN conjunct1, THEN mp]) code_simp
  have c6: "failed (parseArgsR (Suc 5)
        (Group [] (CHR 0x00) [Switch ''toggle'' (CHR 0x00) False, ?V] ?bl []) ?r0)"
    by (rule T[where are' = ?r0, THEN conjunct2, THEN conjunct2, THEN conjunct2, THEN conjunct2, THEN conjunct2,
          THEN conjunct1, THEN mp]) code_simp
  have c7: "parseArgs 6 W 4 argvW
       = Ret (False,
           Group [] (CHR 0x00)
             [Switch ''toggle'' (CHR 0x00) True,
              Vector ''verbose'' (CHR 0x00) True True TSwitch True [Switch ''verbose'' (CHR 0x00) True]]
             [(''verbose'', 1), (''toggle'', 0)] [])"
    by (rule T[where arp = ?r0 and arp' = ?r2, THEN conjunct2, THEN conjunct2, THEN conjunct2, THEN conjunct2, THEN conjunct2,
          THEN conjunct2, THEN mp]) code_simp
  from c1 c2 c3 c4 c5 c6 c7 show ?thesis by blast
qed


subsection \<open>C9: a value attached or given as the next argument\<close>

lemma drop_eq_bound: "drop n xs = drop m ys \<Longrightarrow> (length xs \<le> n) = (length ys \<le> m)"
  by (metis drop_eq_Nil)

lemma drop_eq_nth: "drop n xs = drop m ys \<Longrightarrow> n < length xs \<Longrightarrow> xs ! n = ys ! m"
  by (metis drop_eq_bound hd_drop_conv_nth not_le)

lemma drop_eq_Suc: "drop n xs = drop m ys \<Longrightarrow> drop (Suc n) xs = drop (Suc m) ys"
  by (metis drop_Suc tl_drop)

lemma shifted_observers:
  assumes "shifted d a b"
  shows "hasValue b = hasValue a" "getValue b = getValue a" "hasAnyFlag b = hasAnyFlag a"
    "hasLongFlag b = hasLongFlag a" "hasShortFlag b = hasShortFlag a"
    "getLongFlag b = getLongFlag a" "getShortFlag b = getShortFlag a" "atEnd b = atEnd a"
    "hasMoreArguments b = hasMoreArguments a" "ownName n c b = ownName n c a"
    "canReenter r b f = canReenter r a f"
  using assms
  by (simp_all add: shifted_def hasValue_def getValue_def hasAnyFlag_def hasLongFlag_def
      hasShortFlag_def getLongFlag_def getShortFlag_def atEnd_def hasMoreArguments_def
      ownName_def canReenter_def)

lemma shifted_tell: "shifted d a b \<Longrightarrow> shifted d a' b' \<Longrightarrow> (tell b = tell b') = (tell a = tell a')"
  by (simp add: shifted_def tell_def)

lemma shifted_parseNextArg:
  assumes "shifted d a b"
  shows "rel_outcome (shifted d) (parseNextArg a) (parseNextArg b)"
proof -
  from assms have eq: "charKey b = charKey a" "key b = key a" "val b = val a"
    "flagAbsent b = flagAbsent a" "flagIsCharacter b = flagIsCharacter a"
    "valueSpecified b = valueSpecified a" "clearedOut b = clearedOut a"
    "charFlags b = charFlags a" "position b = position a + d" "argc b = argc a + d"
    and dr: "drop (Suc (position a + d)) (argv b) = drop (Suc (position a)) (argv a)"
    by (auto simp: shifted_def)
  show ?thesis
  proof (cases "charFlags a")
    case (Cons x xs)
    with eq dr show ?thesis by (simp add: parseNextArg_def shifted_def)
  next
    case Nil
    show ?thesis
    proof (cases "position a \<ge> argc a")
      case True
      with Nil eq dr show ?thesis by (simp add: parseNextArg_def shifted_def)
    next
      case False
      note small = this
      show ?thesis
      proof (cases "Suc (position a) \<ge> argc a")
        case True
        with Nil small eq drop_eq_Suc[OF dr] show ?thesis
          by (simp add: parseNextArg_def shifted_def)
      next
        case False
        note more = this
        have bound: "(length (argv b) \<le> Suc (position a + d)) = (length (argv a) \<le> Suc (position a))"
          using dr by (rule drop_eq_bound)
        show ?thesis
        proof (cases "Suc (position a) \<ge> length (argv a)")
          case True
          with Nil small more eq bound show ?thesis
            by (simp add: parseNextArg_def)
        next
          case False
          then have cur': "argv b ! Suc (position a + d) = argv a ! Suc (position a)"
            using drop_eq_nth[OF dr[symmetric]] by simp
          have dr': "drop (Suc (Suc (position a + d))) (argv b) = drop (Suc (Suc (position a))) (argv a)"
            using drop_eq_Suc[OF dr] eq by simp
          have nb: "\<not> length (argv b) \<le> Suc (position a + d)"
            using bound False eq by simp
          from Nil small more False eq nb show ?thesis
            by (simp add: parseNextArg_def shifted_def Let_def cur' dr')
        qed
      qed
    qed
  qed
qed

lemma shifted_nextRawArgument:
  assumes "shifted d a b"
  shows "rel_outcome (\<lambda>(s, a') (t, b'). t = s \<and> shifted d a' b') (nextRawArgument a) (nextRawArgument b)"
proof -
  from assms have eq: "charKey b = charKey a" "clearedOut b = clearedOut a"
    "charFlags b = charFlags a" "position b = position a + d" "argc b = argc a + d"
    and dr: "drop (Suc (position a + d)) (argv b) = drop (Suc (position a)) (argv a)"
    by (auto simp: shifted_def)
  have bound: "(length (argv b) \<le> Suc (position a + d)) = (length (argv a) \<le> Suc (position a))"
    using dr by (rule drop_eq_bound)
  show ?thesis
  proof (cases "Suc (position a) \<ge> length (argv a)")
    case True
    with bound eq show ?thesis by (simp add: nextRawArgument_def)
  next
    case False
    then have cur: "argv b ! Suc (position a + d) = argv a ! Suc (position a)"
      using drop_eq_nth[OF dr[symmetric]] eq by simp
    have dr': "drop (Suc (Suc (position a + d))) (argv b) = drop (Suc (Suc (position a))) (argv a)"
      using drop_eq_Suc[OF dr] eq by simp
    have nb: "\<not> length (argv b) \<le> Suc (position a + d)"
      using bound False eq by simp
    from False eq nb show ?thesis
      by (simp add: nextRawArgument_def shifted_def Let_def cur dr')
  qed
qed

lemma rel_outcome_RetD: "rel_outcome R (Ret x) r \<Longrightarrow> \<exists>y. r = Ret y \<and> R x y"
  by (cases r) auto

lemma rel_outcome_UBD: "rel_outcome R UB r \<Longrightarrow> r = UB"
  by (cases r) auto

lemma rel_outcome_OutOfFuelD: "rel_outcome R OutOfFuel r \<Longrightarrow> r = OutOfFuel"
  by (cases r) auto

lemma sameResult_RetD:
  "sameResult d (Ret (ok, f, a)) r \<Longrightarrow> \<exists>b. r = Ret (ok, f, b) \<and> shifted d a b"
  unfolding sameResult_def by (cases r) auto

lemma sameResult_RetI: "shifted d a b \<Longrightarrow> sameResult d (Ret (ok, f, a)) (Ret (ok, f, b))"
  by (simp add: sameResult_def)

lemma sameResult_simps: "sameResult d UB UB" "sameResult d OutOfFuel OutOfFuel"
  by (simp_all add: sameResult_def)

lemma shifted_parseSingleton:
  assumes s: "shifted d a b"
  shows "sameResult d (parseSingleton n c T p v a) (parseSingleton n c T p v b)"
proof (cases "hasValue a")
  case True
  then have hb: "hasValue b" using shifted_observers(1)[OF s] by simp
  have gv: "getValue b = getValue a" using shifted_observers(2)[OF s] .
  show ?thesis
  proof (cases "ParseType T (getValue a)")
    case None
    with True hb gv s show ?thesis by (simp add: parseSingleton_def sameResult_RetI)
  next
    case (Some v')
    show ?thesis
    proof (cases "parseNextArg a")
      case (Ret a')
      with rel_outcome_RetD[of "shifted d" a' "parseNextArg b"] shifted_parseNextArg[OF s]
      obtain b' where "parseNextArg b = Ret b'" "shifted d a' b'" by auto
      with True hb gv Some Ret show ?thesis by (simp add: parseSingleton_def sameResult_RetI)
    next
      case UB
      with rel_outcome_UBD[of "shifted d" "parseNextArg b"] shifted_parseNextArg[OF s]
      have "parseNextArg b = UB" by simp
      with True hb gv Some UB show ?thesis by (simp add: parseSingleton_def sameResult_simps)
    next
      case OutOfFuel
      with rel_outcome_OutOfFuelD[of "shifted d" "parseNextArg b"] shifted_parseNextArg[OF s]
      have "parseNextArg b = OutOfFuel" by simp
      with True hb gv Some OutOfFuel show ?thesis by (simp add: parseSingleton_def sameResult_simps)
    qed
  qed
next
  case False
  then have hb: "\<not> hasValue b" using shifted_observers(1)[OF s] by simp
  have hm: "hasMoreArguments b = hasMoreArguments a" using shifted_observers(9)[OF s] .
  show ?thesis
  proof (cases "hasMoreArguments a")
    case no: False
    with False hb hm s show ?thesis by (simp add: parseSingleton_def sameResult_RetI)
  next
    case True
    show ?thesis
    proof (cases "nextRawArgument a")
      case (Ret x)
      obtain raw a1 where x: "x = (raw, a1)" by (cases x) auto
      from rel_outcome_RetD[OF shifted_nextRawArgument[OF s, unfolded Ret x]]
      obtain b1 where nb: "nextRawArgument b = Ret (raw, b1)" and s1: "shifted d a1 b1" by auto
      show ?thesis
      proof (cases "ParseType T raw")
        case None
        with False hb hm True Ret x nb s1 show ?thesis by (simp add: parseSingleton_def sameResult_RetI)
      next
        case (Some v')
        show ?thesis
        proof (cases "parseNextArg a1")
          case r: (Ret a')
          with rel_outcome_RetD[of "shifted d" a' "parseNextArg b1"] shifted_parseNextArg[OF s1]
          obtain b' where "parseNextArg b1 = Ret b'" "shifted d a' b'" by auto
          with False hb hm True Ret x nb Some r show ?thesis
            by (simp add: parseSingleton_def sameResult_RetI)
        next
          case u: UB
          with rel_outcome_UBD[of "shifted d" "parseNextArg b1"] shifted_parseNextArg[OF s1]
          have "parseNextArg b1 = UB" by simp
          with False hb hm True Ret x nb Some u show ?thesis
            by (simp add: parseSingleton_def sameResult_simps)
        next
          case o: OutOfFuel
          with rel_outcome_OutOfFuelD[of "shifted d" "parseNextArg b1"] shifted_parseNextArg[OF s1]
          have "parseNextArg b1 = OutOfFuel" by simp
          with False hb hm True Ret x nb Some o show ?thesis
            by (simp add: parseSingleton_def sameResult_simps)
        qed
      qed
    next
      case UB
      with rel_outcome_UBD[OF shifted_nextRawArgument[OF s, unfolded UB]]
      have "nextRawArgument b = UB" by simp
      with False hb hm True UB show ?thesis by (simp add: parseSingleton_def sameResult_simps)
    next
      case OutOfFuel
      with rel_outcome_OutOfFuelD[OF shifted_nextRawArgument[OF s, unfolded OutOfFuel]]
      have "nextRawArgument b = OutOfFuel" by simp
      with False hb hm True OutOfFuel show ?thesis by (simp add: parseSingleton_def sameResult_simps)
    qed
  qed
qed

lemma shifted_parseSwitch:
  assumes s: "shifted d a b"
  shows "sameResult d (parseSwitch n c p a) (parseSwitch n c p b)"
proof (cases "hasValue a")
  case True
  then have "hasValue b" using shifted_observers(1)[OF s] by simp
  with True s show ?thesis by (simp add: parseSwitch_def sameResult_RetI)
next
  case False
  then have hb: "\<not> hasValue b" using shifted_observers(1)[OF s] by simp
  show ?thesis
  proof (cases "parseNextArg a")
    case (Ret a')
    with rel_outcome_RetD[of "shifted d" a' "parseNextArg b"] shifted_parseNextArg[OF s]
    obtain b' where "parseNextArg b = Ret b'" "shifted d a' b'" by auto
    with False hb Ret show ?thesis by (simp add: parseSwitch_def sameResult_RetI)
  next
    case UB
    with rel_outcome_UBD[of "shifted d" "parseNextArg b"] shifted_parseNextArg[OF s]
    have "parseNextArg b = UB" by simp
    with False hb UB show ?thesis by (simp add: parseSwitch_def sameResult_simps)
  next
    case OutOfFuel
    with rel_outcome_OutOfFuelD[of "shifted d" "parseNextArg b"] shifted_parseNextArg[OF s]
    have "parseNextArg b = OutOfFuel" by simp
    with False hb OutOfFuel show ?thesis by (simp add: parseSwitch_def sameResult_simps)
  qed
qed

lemma sameResult_cases:
  assumes "sameResult d ra rb"
  obtains (ub) "ra = UB" "rb = UB"
  | (oof) "ra = OutOfFuel" "rb = OutOfFuel"
  | (ret) ok f a b where "ra = Ret (ok, f, a)" "rb = Ret (ok, f, b)" "shifted d a b"
  using assms unfolding sameResult_def by (cases ra; cases rb) auto

lemma shifted_simulation_both:
  "(\<forall>f a b. shifted d a b \<longrightarrow> sameResult d (parseArgsR k f a) (parseArgsR k f b))
   \<and> (\<forall>n c ms bl bs a b. shifted d a b \<longrightarrow>
         sameResult d (groupLoop k n c ms bl bs a) (groupLoop k n c ms bl bs b))"
proof (induction k)
  case 0
  show ?case by (simp add: sameResult_simps)
next
  case (Suc k)
  then have IHp: "\<And>f a b. shifted d a b \<Longrightarrow> sameResult d (parseArgsR k f a) (parseArgsR k f b)"
    and IHg: "\<And>n c ms bl bs a b. shifted d a b \<Longrightarrow>
         sameResult d (groupLoop k n c ms bl bs a) (groupLoop k n c ms bl bs b)"
    by blast+
  have P: "sameResult d (parseArgsR (Suc k) f a) (parseArgsR (Suc k) f b)"
    if s: "shifted d a b" for f a b
  proof (cases f)
    case (Prim n c T p v)
    with s show ?thesis by (simp add: shifted_parseSingleton)
  next
    case (Switch n c p)
    with s show ?thesis by (simp add: shifted_parseSwitch)
  next
    case (Vector n c g r T e vs)
    from IHp[OF s, of "instantiate T n c"] show ?thesis
    proof (cases rule: sameResult_cases)
      case ub
      with Vector show ?thesis by (simp add: sameResult_simps)
    next
      case oof
      with Vector show ?thesis by (simp add: sameResult_simps)
    next
      case (ret ok flag a' b')
      have t: "(tell b = tell b') = (tell a = tell a')" using s ret(3) by (rule shifted_tell)
      have o: "hasAnyFlag b' = hasAnyFlag a'" "canReenter r b' flag = canReenter r a' flag"
        using shifted_observers[OF ret(3)] by simp_all
      show ?thesis
      proof (cases "ok \<and> tell a \<noteq> tell a' \<and> g \<and> (\<not> hasAnyFlag a' \<or> canReenter r a' flag)")
        case True
        with Vector ret t o IHp[OF ret(3), of "Vector n c g r T True (vs @ [flag])"]
        show ?thesis by auto
      next
        case False
        with Vector ret t o show ?thesis by (auto simp: sameResult_RetI)
      qed
    qed
  next
    case (Group n c ms bl bs)
    have o: "hasLongFlag b = hasLongFlag a" "hasShortFlag b = hasShortFlag a"
      "ownName n c b = ownName n c a"
      using shifted_observers[OF s] by simp_all
    show ?thesis
    proof (cases "hasLongFlag a = hasShortFlag a")
      case True
      with Group o s show ?thesis by (simp add: sameResult_RetI)
    next
      case False
      show ?thesis
      proof (cases "ownName n c a")
        case True
        from shifted_parseNextArg[OF s] show ?thesis
        proof (cases "parseNextArg a")
          case (Ret a')
          with rel_outcome_RetD[of "shifted d" a' "parseNextArg b"] shifted_parseNextArg[OF s]
          obtain b' where "parseNextArg b = Ret b'" "shifted d a' b'" by auto
          with Group o False True Ret IHg[of a' b' n c ms bl bs] show ?thesis by simp
        next
          case UB
          with rel_outcome_UBD[of "shifted d" "parseNextArg b"] shifted_parseNextArg[OF s]
          have "parseNextArg b = UB" by simp
          with Group o False True UB show ?thesis by (simp add: sameResult_simps)
        next
          case OutOfFuel
          with rel_outcome_OutOfFuelD[of "shifted d" "parseNextArg b"] shifted_parseNextArg[OF s]
          have "parseNextArg b = OutOfFuel" by simp
          with Group o False True OutOfFuel show ?thesis by (simp add: sameResult_simps)
        qed
      next
        case no: False
        with Group o False IHg[OF s, of n c ms bl bs] show ?thesis by simp
      qed
    qed
  qed
  have G: "sameResult d (groupLoop (Suc k) n c ms bl bs a) (groupLoop (Suc k) n c ms bl bs b)"
    if s: "shifted d a b" for n c ms bl bs a b
  proof -
    have o: "atEnd b = atEnd a" "hasLongFlag b = hasLongFlag a"
      "getLongFlag b = getLongFlag a" "getShortFlag b = getShortFlag a"
      using shifted_observers[OF s] by simp_all
    have same: "sameResult d (Ret (True, Group n c ms bl bs, a)) (Ret (True, Group n c ms bl bs, b))"
      using s by (rule sameResult_RetI)
    show ?thesis
    proof (cases "atEnd a")
      case True
      with o same show ?thesis by simp
    next
      case nend: False
      show ?thesis
      proof (cases "hasLongFlag a")
        case True
        show ?thesis
        proof (cases "map_of bl (getLongFlag a)")
          case None
          with nend True o same show ?thesis by simp
        next
          case (Some i)
          show ?thesis
          proof (cases "i \<ge> length ms \<or> atCapacity (ms ! i)")
            case True
            with nend \<open>hasLongFlag a\<close> Some o same show ?thesis by (auto simp: sameResult_simps)
          next
            case False
            from IHp[OF s, of "ms ! i"] show ?thesis
            proof (cases rule: sameResult_cases)
              case ub
              with nend True Some False o show ?thesis by (simp add: sameResult_simps)
            next
              case oof
              with nend True Some False o show ?thesis by (simp add: sameResult_simps)
            next
              case (ret ok m a' b')
              have t: "(tell b' = tell b) = (tell a' = tell a)"
                using shifted_tell[OF s ret(3)] by auto
              show ?thesis
              proof (cases "ok \<and> tell a' \<noteq> tell a")
                case go: True
                with nend True Some False o ret t IHg[OF ret(3), of n c "ms[i := m]" bl bs]
                show ?thesis by auto
              next
                case stop: False
                with nend True Some False o ret t show ?thesis by (auto simp: sameResult_RetI)
              qed
            qed
          qed
        qed
      next
        case sh: False
        show ?thesis
        proof (cases "map_of bs (getShortFlag a)")
          case None
          with nend sh o same show ?thesis by simp
        next
          case (Some i)
          show ?thesis
          proof (cases "i \<ge> length ms \<or> atCapacity (ms ! i)")
            case True
            with nend sh Some o same show ?thesis by (auto simp: sameResult_simps)
          next
            case False
            from IHp[OF s, of "ms ! i"] show ?thesis
            proof (cases rule: sameResult_cases)
              case ub
              with nend sh Some False o show ?thesis by (simp add: sameResult_simps)
            next
              case oof
              with nend sh Some False o show ?thesis by (simp add: sameResult_simps)
            next
              case (ret ok m a' b')
              show ?thesis
              proof (cases ok)
                case go: True
                with nend sh Some False o ret IHg[OF ret(3), of n c "ms[i := m]" bl bs]
                show ?thesis by auto
              next
                case stop: False
                with nend sh Some False o ret show ?thesis by (auto simp: sameResult_RetI)
              qed
            qed
          qed
        qed
      qed
    qed
  qed
  from P G show ?case by blast
qed

lemma sameOutcome_simps:
  "sameOutcome R UB UB" "sameOutcome R OutOfFuel OutOfFuel"
  "sameOutcome R (Ret (ok, f, a)) (Ret (ok', f', b)) = (ok' = ok \<and> f' = f \<and> (ok \<longrightarrow> R a b))"
  by (simp_all add: sameOutcome_def)

lemma sameOutcome_cases:
  assumes "sameOutcome R ra rb"
  obtains (ub) "ra = UB" "rb = UB"
  | (oof) "ra = OutOfFuel" "rb = OutOfFuel"
  | (fail) f a b where "ra = Ret (False, f, a)" "rb = Ret (False, f, b)"
  | (ret) f a b where "ra = Ret (True, f, a)" "rb = Ret (True, f, b)" "R a b"
proof (cases ra)
  case (Ret x)
  obtain ok f a where x: "x = (ok, f, a)" by (cases x) auto
  from assms Ret x obtain b where rb: "rb = Ret (ok, f, b)" "ok \<longrightarrow> R a b"
    unfolding sameOutcome_def by (cases rb) auto
  show ?thesis
  proof (cases ok)
    case True
    with Ret x rb show ?thesis by (intro ret) auto
  next
    case False
    with Ret x rb show ?thesis by (intro fail) auto
  qed
next
  case UB
  with assms have "rb = UB" unfolding sameOutcome_def by (cases rb) auto
  with UB show ?thesis by (rule ub)
next
  case OutOfFuel
  with assms have "rb = OutOfFuel" unfolding sameOutcome_def by (cases rb) auto
  with OutOfFuel show ?thesis by (rule oof)
qed

lemma sameResult_sameOutcome: "sameResult d ra rb \<Longrightarrow> sameOutcome (shifted d) ra rb"
  unfolding sameResult_def sameOutcome_def by (cases ra; cases rb) auto

lemma valueNode_foldl_addFlag: "\<not> valueNode (foldl addFlag (Group n c ms bl bs) xs)"
  by (induction xs arbitrary: ms bl bs) simp_all

lemma valueNode_instantiate: "valueNode (instantiate T n c) = consumesValue T"
  by (cases T) (simp_all add: valueNode_foldl_addFlag)

lemma parseNextArg_token_independent:
  "charFlags a = [] \<Longrightarrow>
     parseNextArg (a\<lparr>key := k, val := x, valueSpecified := vs, flagAbsent := fa,
                     flagIsCharacter := fc, charKey := ck\<rparr>) = parseNextArg a"
  by (simp add: parseNextArg_def Let_def)

lemma parseNextArg_advances:
  "charFlags a = [] \<Longrightarrow> position a < argc a \<Longrightarrow> parseNextArg a = Ret a' \<Longrightarrow>
     position a' = Suc (position a)"
  by (auto simp: parseNextArg_def Let_def split: if_splits)

lemma sameFlagGiven_parseSingleton:
  assumes g: "sameFlagGiven a b"
  shows "sameOutcome (\<lambda>a' b'. shifted 1 a' b' \<and> position a < position a')
           (parseSingleton n c T p v a) (parseSingleton n c T p v b)"
proof -
  from g have a: "valueSpecified a" "charFlags a = []" "position a < argc a"
    and b: "\<not> valueSpecified b" "position b = position a" "argc b = Suc (argc a)"
      "charFlags b = []" "clearedOut b = clearedOut a"
    and dr: "drop (Suc (position a)) (argv b) = val a # drop (Suc (position a)) (argv a)"
    by (auto simp: sameFlagGiven_def)
  have len: "Suc (position a) < length (argv b)"
    using dr by (metis drop_eq_Nil list.distinct(1) not_le)
  have raw: "argv b ! Suc (position a) = val a"
    using dr len by (metis hd_drop_conv_nth list.sel(1))
  have dr2: "drop (Suc (Suc (position a))) (argv b) = drop (Suc (position a)) (argv a)"
    using dr by (metis drop_Suc list.sel(3) tl_drop)
  define b1 where "b1 = b\<lparr>flagAbsent := True, valueSpecified := True, flagIsCharacter := False,
                      key := [], position := Suc (position a), val := val a\<rparr>"
  have nb: "nextRawArgument b = Ret (val a, b1)"
    using len raw b by (simp add: nextRawArgument_def b1_def)
  define an where "an = a\<lparr>key := [], val := [], valueSpecified := False, flagAbsent := False,
                      flagIsCharacter := False, charKey := CHR 0x00\<rparr>"
  define bn where "bn = b1\<lparr>key := [], val := [], valueSpecified := False, flagAbsent := False,
                      flagIsCharacter := False, charKey := CHR 0x00\<rparr>"
  have pa: "parseNextArg an = parseNextArg a"
    unfolding an_def using a(2) by (rule parseNextArg_token_independent)
  have pb: "parseNextArg bn = parseNextArg b1"
    unfolding bn_def by (rule parseNextArg_token_independent) (simp add: b1_def b)
  have sn: "shifted 1 an bn"
    using a b dr2 by (simp add: shifted_def an_def bn_def b1_def)
  have rel: "rel_outcome (shifted 1) (parseNextArg a) (parseNextArg b1)"
    using shifted_parseNextArg[OF sn] pa pb by simp
  have "hasValue a" "\<not> hasValue b" "hasMoreArguments b" "getValue a = val a"
    using a b by (simp_all add: hasValue_def hasMoreArguments_def getValue_def)
  note obs = this
  show ?thesis
  proof (cases "ParseType T (val a)")
    case None
    with obs nb show ?thesis by (simp add: parseSingleton_def sameOutcome_simps)
  next
    case (Some v')
    show ?thesis
    proof (cases "parseNextArg a")
      case (Ret a')
      with rel_outcome_RetD[of "shifted 1" a' "parseNextArg b1"] rel
      obtain b' where b': "parseNextArg b1 = Ret b'" "shifted 1 a' b'" by auto
      have "position a' = Suc (position a)" using a Ret by (simp add: parseNextArg_advances)
      with obs nb Some Ret b' show ?thesis by (simp add: parseSingleton_def sameOutcome_simps)
    next
      case UB
      with rel_outcome_UBD[of "shifted 1" "parseNextArg b1"] rel
      have "parseNextArg b1 = UB" by simp
      with obs nb Some UB show ?thesis by (simp add: parseSingleton_def sameOutcome_simps)
    next
      case OutOfFuel
      with rel_outcome_OutOfFuelD[of "shifted 1" "parseNextArg b1"] rel
      have "parseNextArg b1 = OutOfFuel" by simp
      with obs nb Some OutOfFuel show ?thesis by (simp add: parseSingleton_def sameOutcome_simps)
    qed
  qed
qed

lemma shifted_simulation:
  "shifted d a b \<Longrightarrow> sameResult d (parseArgsR k f a) (parseArgsR k f b)"
  "shifted d a b \<Longrightarrow> sameResult d (groupLoop k n c ms bl bs a) (groupLoop k n c ms bl bs b)"
  using shifted_simulation_both by blast+

lemma sameFlagGiven_valueNode:
  "valueNode f \<Longrightarrow> sameFlagGiven a b \<Longrightarrow>
     sameOutcome (\<lambda>a' b'. shifted 1 a' b' \<and> position a < position a')
       (parseArgsR k f a) (parseArgsR k f b)"
proof (induction k arbitrary: f)
  case 0
  show ?case by (simp add: sameOutcome_simps)
next
  case (Suc k)
  note g = \<open>sameFlagGiven a b\<close>
  show ?case
  proof (cases f)
    case (Prim n c T p v)
    with sameFlagGiven_parseSingleton[OF g] show ?thesis by simp
  next
    case (Switch n c p)
    with Suc.prems show ?thesis by simp
  next
    case (Group n c ms bl bs)
    with Suc.prems show ?thesis by simp
  next
    case (Vector n c gr r T e vs)
    with Suc.prems have "valueNode (instantiate T n c)" by (simp add: valueNode_instantiate)
    from Suc.IH[OF this g] show ?thesis
    proof (cases rule: sameOutcome_cases)
      case ub
      with Vector show ?thesis by (simp add: sameOutcome_simps)
    next
      case oof
      with Vector show ?thesis by (simp add: sameOutcome_simps)
    next
      case (fail flag a' b')
      with Vector show ?thesis by (simp add: sameOutcome_simps)
    next
      case (ret flag a' b')
      then have s: "shifted 1 a' b'" and p: "position a < position a'" by simp_all
      have pb: "position b = position a" using g by (simp add: sameFlagGiven_def)
      have ta: "tell a \<noteq> tell a'" using p by (simp add: tell_def)
      have tb: "tell b \<noteq> tell b'" using p pb s by (simp add: tell_def shifted_def)
      have o: "hasAnyFlag b' = hasAnyFlag a'" "canReenter r b' flag = canReenter r a' flag"
        using shifted_observers[OF s] by simp_all
      show ?thesis
      proof (cases "gr \<and> (\<not> hasAnyFlag a' \<or> canReenter r a' flag)")
        case False
        with Vector ret ta tb o show ?thesis by (auto simp: sameOutcome_simps)
      next
        case True
        let ?V = "Vector n c gr r T True (vs @ [flag])"
        have ea: "parseArgsR (Suc k) f a = parseArgsR k ?V a'"
          using Vector ret(1) ta True by simp
        have eb: "parseArgsR (Suc k) f b = parseArgsR k ?V b'"
          using Vector ret(2) tb True o by simp
        from shifted_simulation(1)[OF s, of k ?V] show ?thesis
        proof (cases rule: sameResult_cases)
          case ub
          with ea eb show ?thesis by (simp add: sameOutcome_simps)
        next
          case oof
          with ea eb show ?thesis by (simp add: sameOutcome_simps)
        next
          case (ret ok f2 a2 b2)
          have "position a' \<le> position a2" using ret(1) by (rule position_mono(1))
          with p ret ea eb show ?thesis by (simp add: sameOutcome_simps)
        qed
      qed
    qed
  qed
qed

lemma sameFlagGiven_groupLoop:
  assumes g: "sameFlagGiven a b" and d: "dispatchesValue ms bl bs a b"
  shows "sameOutcome (\<lambda>a' b'. shifted 1 a' b' \<and> position a < position a' \<or> a' = a \<and> b' = b)
           (groupLoop k n c ms bl bs a) (groupLoop k n c ms bl bs b)"
proof (cases k)
  case 0
  then show ?thesis by (simp add: sameOutcome_simps)
next
  case (Suc j)
  from g have ea: "\<not> atEnd a" "hasLongFlag a" and eb: "\<not> atEnd b"
    "hasLongFlag b = (\<not> flagIsCharacter b)" "position b = position a"
    by (auto simp: sameFlagGiven_def atEnd_def hasLongFlag_def)
  have lb: "(if hasLongFlag b then map_of bl (getLongFlag b) else map_of bs (getShortFlag b))
            = map_of bl (getLongFlag a)"
    using d eb(2) by (auto simp: dispatchesValue_def getLongFlag_def getShortFlag_def)
  show ?thesis
  proof (cases "map_of bl (getLongFlag a)")
    case None
    with Suc ea eb lb show ?thesis by (auto simp: sameOutcome_simps split: if_splits)
  next
    case (Some i)
    show ?thesis
    proof (cases "i \<ge> length ms \<or> atCapacity (ms ! i)")
      case True
      with Suc ea eb lb Some show ?thesis by (auto simp: sameOutcome_simps split: if_splits)
    next
      case False
      then have "valueNode (ms ! i)"
        using d Some by (simp add: dispatchesValue_def getLongFlag_def)
      from sameFlagGiven_valueNode[OF this g, of j] show ?thesis
      proof (cases rule: sameOutcome_cases)
        case ub
        with Suc ea eb lb Some False show ?thesis by (auto simp: sameOutcome_simps split: if_splits)
      next
        case oof
        with Suc ea eb lb Some False show ?thesis by (auto simp: sameOutcome_simps split: if_splits)
      next
        case (fail m a' b')
        with Suc ea eb lb Some False show ?thesis by (auto simp: sameOutcome_simps split: if_splits)
      next
        case (ret m a' b')
        then have s: "shifted 1 a' b'" and p: "position a < position a'" by simp_all
        have ta: "tell a' \<noteq> tell a" using p by (simp add: tell_def)
        have tb: "tell b' \<noteq> tell b" using p eb(3) s by (simp add: tell_def shifted_def)
        have la: "groupLoop k n c ms bl bs a = groupLoop j n c (ms[i := m]) bl bs a'"
          using Suc ea Some False ret(1) ta by simp
        have lb': "groupLoop k n c ms bl bs b = groupLoop j n c (ms[i := m]) bl bs b'"
          using Suc eb lb Some False ret(2) tb by (auto split: if_splits)
        from shifted_simulation(2)[OF s, of j n c "ms[i := m]" bl bs] show ?thesis
        proof (cases rule: sameResult_cases)
          case ub
          with la lb' show ?thesis by (simp add: sameOutcome_simps)
        next
          case oof
          with la lb' show ?thesis by (simp add: sameOutcome_simps)
        next
          case (ret ok f2 a2 b2)
          have "position a' \<le> position a2" using ret(1) by (rule position_mono(2))
          with p ret la lb' show ?thesis by (simp add: sameOutcome_simps)
        qed
      qed
    qed
  qed
qed

lemma sameFlagGiven_group:
  assumes g: "sameFlagGiven a b" and d: "dispatchesValue ms bl bs a b"
    and na: "\<not> ownName n c a" and nb: "\<not> ownName n c b"
  shows "sameOutcome (\<lambda>a' b'. shifted 1 a' b' \<and> position a < position a' \<or> a' = a \<and> b' = b)
           (parseArgsR k (Group n c ms bl bs) a) (parseArgsR k (Group n c ms bl bs) b)"
proof (cases k)
  case 0
  then show ?thesis by (simp add: sameOutcome_simps)
next
  case (Suc j)
  from g have "hasLongFlag a \<noteq> hasShortFlag a" "hasLongFlag b \<noteq> hasShortFlag b"
    by (auto simp: sameFlagGiven_def hasLongFlag_def hasShortFlag_def)
  with Suc na nb sameFlagGiven_groupLoop[OF g d, of j n c] show ?thesis by simp
qed

lemma scenarioA_members:
  "scenarioA =
     Group [] (CHR 0x00)
       [Prim ''alive'' (CHR 0x00) PBool False (VBool False),
        Prim ''param'' (CHR 0x00) PInt64 False (VInt 0),
        Vector ''ind'' (CHR 0x00) True True (TPrim PInt32) False []]
       [(''ind'', 2), (''param'', 1), (''alive'', 0)] []"
  by code_simp

lemma tokenLists_length: "tokenLists name sh v t A B \<Longrightarrow> length B = Suc (length A)"
proof -
  assume a: "tokenLists name sh v t A B"
  then have "length (drop t B) = Suc (Suc (length (drop (Suc t) A)))" by (simp add: tokenLists_def)
  moreover have "t < length A" using a by (simp add: tokenLists_def)
  ultimately show ?thesis by auto
qed

lemma tokenLists_nth:
  assumes "tokenLists name sh v t A B"
  shows "i < t \<Longrightarrow> B ! i = A ! i" "B ! t = tokenOf name sh" "B ! Suc t = v"
    "drop (Suc (Suc t)) B = drop (Suc t) A"
proof -
  from assms have tk: "take t B = take t A"
    and dr: "drop t B = tokenOf name sh # v # drop (Suc t) A"
    and t: "t < length A"
    by (simp_all add: tokenLists_def)
  have lb: "length B = Suc (length A)" using assms by (rule tokenLists_length)
  show "B ! i = A ! i" if "i < t" using tk that by (metis nth_take)
  show "B ! t = tokenOf name sh" using dr t lb by (metis hd_drop_conv_nth less_Suc_eq list.sel(1) less_SucI)
  have "drop (Suc t) B = v # drop (Suc t) A" using dr by (metis drop_Suc list.sel(3) tl_drop)
  then show "B ! Suc t = v" "drop (Suc (Suc t)) B = drop (Suc t) A"
    using t lb by (metis hd_drop_conv_nth Suc_less_eq list.sel(1), metis drop_Suc list.sel(3) tl_drop)
qed

lemma sameOutcome_mono:
  "sameOutcome R ra rb \<Longrightarrow> (\<And>x y. R x y \<Longrightarrow> R' x y) \<Longrightarrow> sameOutcome R' ra rb"
  unfolding sameOutcome_def by (cases ra; cases rb) auto

lemma takeWhile_name:
  "CHR ''='' \<notin> set name \<Longrightarrow> takeWhile (\<lambda>c. c \<noteq> CHR ''='') (name @ CHR ''='' # v) = name"
  by (induction name) auto

lemma dropWhile_name:
  "CHR ''='' \<notin> set name \<Longrightarrow> dropWhile (\<lambda>c. c \<noteq> CHR ''='') (name @ CHR ''='' # v) = CHR ''='' # v"
  by (induction name) auto

lemma before_parseNextArg:
  assumes tl: "tokenLists name sh v t A B" and bt: "beforeToken A B t a b"
  shows "rel_outcome (inStep name sh A B t) (parseNextArg a) (parseNextArg b)"
proof -
  from bt have av: "argv a = A" "argc a = length A" "argv b = B" "argc b = length B"
    and pos: "position a < t" "position b = position a"
    and nc: "\<not> clearedOut a" "\<not> clearedOut b"
    and eq: "charKey b = charKey a" "key b = key a" "val b = val a" "flagAbsent b = flagAbsent a"
      "flagIsCharacter b = flagIsCharacter a" "valueSpecified b = valueSpecified a"
      "charFlags b = charFlags a"
    by (simp_all add: beforeToken_def)
  from tl have t: "t < length A" and ne: "CHR ''='' \<notin> set name"
    and At: "A ! t = ''--'' @ name @ ''='' @ v" and nd: "sh \<noteq> Some (CHR ''-'')"
    by (simp_all add: tokenLists_def)
  have lb: "length B = Suc (length A)" using tl by (rule tokenLists_length)
  note nth = tokenLists_nth[OF tl]
  show ?thesis
  proof (cases "charFlags a")
    case (Cons c cs)
    with av pos nc eq show ?thesis
      by (simp add: parseNextArg_def inStep_def beforeToken_def)
  next
    case Nil
    show ?thesis
    proof (cases "Suc (position a) = t")
      case True
      have pa: "parseNextArg a = Ret (a\<lparr>flagAbsent := False, valueSpecified := True,
                  flagIsCharacter := False, val := v, charKey := CHR 0x00, position := t,
                  key := name\<rparr>)"
        using Nil True av t At ne
        by (simp add: parseNextArg_def Let_def charAt_def takeWhile_name dropWhile_name)
      have dr: "drop (Suc t) B = v # drop (Suc t) A"
        using nth(3,4) t lb by (metis Cons_nth_drop_Suc Suc_less_eq)
      show ?thesis
      proof (cases sh)
        case None
        have pb: "parseNextArg b = Ret (b\<lparr>flagAbsent := False, valueSpecified := False,
                  flagIsCharacter := False, val := [], charKey := CHR 0x00, position := t,
                  key := name\<rparr>)"
          using Nil True av t nth(2) ne lb pos eq None
          by (simp add: parseNextArg_def Let_def charAt_def tokenOf_def)
        show ?thesis
          unfolding pa pb using Nil av t lb dr nc eq None
          by (simp add: inStep_def onToken_def sameFlagGiven_def)
      next
        case (Some s)
        with nd have s: "s \<noteq> CHR ''-''" by simp
        have pb: "parseNextArg b = Ret (b\<lparr>flagAbsent := False, valueSpecified := False,
                  val := [], position := t, flagIsCharacter := True, key := [],
                  charKey := s, charFlags := []\<rparr>)"
          using Nil True av t nth(2) lb pos eq Some s
          by (simp add: parseNextArg_def Let_def charAt_def tokenOf_def)
        show ?thesis
          unfolding pa pb using Nil av t lb dr nc eq Some
          by (simp add: inStep_def onToken_def sameFlagGiven_def)
      qed
    next
      case False
      with pos have lt: "Suc (position a) < t" by simp
      then have cur: "B ! Suc (position a) = A ! Suc (position a)" by (rule nth(1))
      have rng: "\<not> length A \<le> position a" "\<not> length A \<le> Suc (position a)"
        "\<not> Suc (length A) \<le> position a" "\<not> length A \<le> position a"
        using lt t by simp_all
      from Nil lt av lb pos nc eq rng show ?thesis
        by (simp add: parseNextArg_def Let_def inStep_def beforeToken_def cur)
    qed
  qed
qed

lemma cutAt_parseNextArg:
  assumes a: "argc a = length (argv a)" "t \<le> length (argv a)"
    and r: "parseNextArg a = Ret a'" and p: "position a' < t"
  shows "parseNextArg (cutAt t a) = Ret (cutAt t a')"
proof (cases "charFlags a")
  case (Cons c cs)
  with r show ?thesis by (auto simp: parseNextArg_def cutAt_def)
next
  case Nil
  from r p Nil a have lt: "Suc (position a) < t"
    by (auto simp: parseNextArg_def Let_def split: if_splits)
  then have cur: "take t (argv a) ! Suc (position a) = argv a ! Suc (position a)" by simp
  have rng: "\<not> t \<le> position a" "\<not> t \<le> Suc (position a)"
    "\<not> length (argv a) \<le> position a" "\<not> length (argv a) \<le> Suc (position a)"
    "min (length (argv a)) t = t"
    using lt a by simp_all
  from r Nil rng a(1) show ?thesis
    by (auto simp: parseNextArg_def Let_def cutAt_def cur split: if_splits)
qed

lemma cutAt_nextRawArgument:
  assumes "t \<le> length (argv a)" and "nextRawArgument a = Ret (x, a')" and "Suc (position a) < t"
  shows "nextRawArgument (cutAt t a) = Ret (x, cutAt t a')"
  using assms by (auto simp: nextRawArgument_def Let_def cutAt_def split: if_splits)

lemma cutAt_nextRawArgument_UB:
  "Suc (position a) = t \<Longrightarrow> nextRawArgument (cutAt t a) = UB"
  by (simp add: nextRawArgument_def Let_def cutAt_def)

lemma cutAt_observers:
  "hasValue (cutAt t a) = hasValue a" "getValue (cutAt t a) = getValue a"
  "hasAnyFlag (cutAt t a) = hasAnyFlag a" "hasLongFlag (cutAt t a) = hasLongFlag a"
  "hasShortFlag (cutAt t a) = hasShortFlag a" "getLongFlag (cutAt t a) = getLongFlag a"
  "getShortFlag (cutAt t a) = getShortFlag a" "atEnd (cutAt t a) = atEnd a"
  "ownName n c (cutAt t a) = ownName n c a" "canReenter r (cutAt t a) f = canReenter r a f"
  "tell (cutAt t a) = tell a" "hasMoreArguments (cutAt t a) = (position a < t)"
  by (simp_all add: cutAt_def hasValue_def getValue_def hasAnyFlag_def hasLongFlag_def
      hasShortFlag_def getLongFlag_def getShortFlag_def atEnd_def ownName_def canReenter_def
      tell_def hasMoreArguments_def)

lemma before_nextRawArgument:
  assumes tl: "tokenLists name sh v t A B" and bt: "beforeToken A B t a b"
    and lt: "Suc (position a) < t"
  shows "\<exists>x a' b'. nextRawArgument a = Ret (x, a') \<and> nextRawArgument b = Ret (x, b')
             \<and> beforeToken A B t a' b'"
proof -
  from bt have av: "argv a = A" "argc a = length A" "argv b = B" "argc b = length B"
    and pos: "position a < t" "position b = position a"
    and nc: "\<not> clearedOut a" "\<not> clearedOut b"
    and eq: "charKey b = charKey a" "charFlags b = charFlags a"
    by (simp_all add: beforeToken_def)
  from tl have t: "t < length A" by (simp add: tokenLists_def)
  have lb: "length B = Suc (length A)" using tl by (rule tokenLists_length)
  note nth = tokenLists_nth[OF tl]
  show ?thesis
    using lt nth(1)[OF lt] av t lb nc pos eq by (simp add: nextRawArgument_def beforeToken_def)
qed

lemma before_observers:
  assumes "beforeToken A B t a b" and "tokenLists name sh v t A B"
  shows "hasValue b = hasValue a" "getValue b = getValue a" "hasMoreArguments a" "hasMoreArguments b"
  using assms tokenLists_length[OF assms(2)]
  by (simp_all add: beforeToken_def hasValue_def getValue_def hasMoreArguments_def tokenLists_def)

lemma inStep_cases:
  assumes "inStep name sh A B t a b"
  obtains (before) "beforeToken A B t a b" | (on) "onToken name sh t a b" | (after) "afterToken t a b"
  using assms unfolding inStep_def by blast

lemma inStep_position:
  assumes "inStep name sh A B t a b"
  obtains "position a < t" "position b = position a"
  | "position a = t" "position b = position a"
  | "t < position a" "position b = Suc (position a)"
  using assms
proof (cases rule: inStep_cases)
  case before
  then have "position a < t" "position b = position a" by (simp_all add: beforeToken_def)
  then show ?thesis by (rule that(1))
next
  case on
  then have "position a = t" "position b = position a" by (simp_all add: onToken_def sameFlagGiven_def)
  then show ?thesis by (rule that(2))
next
  case after
  then have "t < position a" "position b = Suc (position a)" by (simp_all add: afterToken_def shifted_def)
  then show ?thesis by (rule that(3))
qed

lemma inStep_before: "inStep name sh A B t a b \<Longrightarrow> position a < t \<Longrightarrow> beforeToken A B t a b"
  by (auto simp: inStep_def onToken_def afterToken_def)

lemma inStep_tell:
  assumes "inStep name sh A B t a b" and "inStep name sh A B t a' b'" and "position a \<le> position a'"
  shows "(tell b = tell b') = (tell a = tell a')"
  using assms(1)
proof (cases rule: inStep_position)
  case 1
  from assms(2) show ?thesis by (cases rule: inStep_position) (use 1 assms(3) in \<open>simp_all add: tell_def\<close>)
next
  case 2
  from assms(2) show ?thesis by (cases rule: inStep_position) (use 2 assms(3) in \<open>simp_all add: tell_def\<close>)
next
  case 3
  from assms(2) show ?thesis by (cases rule: inStep_position) (use 3 assms(3) in \<open>simp_all add: tell_def\<close>)
qed


lemma valueNode_evolves: "evolves f f' \<Longrightarrow> valueNode f' = valueNode f"
  by (cases f; cases f') auto

lemma dispatchOK_evolves:
  assumes "evolvesAll ms ms'"
  shows "dispatchOK name sh ms' bl bs = dispatchOK name sh ms bl bs"
proof -
  have len: "length ms' = length ms" using assms by (rule evolvesAll_length)
  have "valueNode (ms' ! i) = valueNode (ms ! i)" if "i < length ms" for i
    using evolvesAll_nth[OF assms that] by (rule valueNode_evolves)
  with len show ?thesis by (auto simp: dispatchOK_def split: option.splits)
qed

lemma evolvesAll_list_all:
  "evolvesAll ms ms' \<Longrightarrow> (\<And>m m'. m \<in> set ms \<Longrightarrow> evolves m m' \<Longrightarrow> P m' = P m) \<Longrightarrow>
     list_all P ms' = list_all P ms"
proof (induction ms arbitrary: ms')
  case Nil
  then show ?case by (cases ms') simp_all
next
  case (Cons m ms)
  then show ?case by (cases ms') auto
qed

lemma valueFlagWithin_evolves:
  "evolves f f' \<Longrightarrow> valueFlagWithin name sh f' = valueFlagWithin name sh f"
proof (induction name sh f arbitrary: f' rule: valueFlagWithin.induct)
  case (1 name sh n c T p v)
  then show ?case by (cases f') simp_all
next
  case (2 name sh n c p)
  then show ?case by (cases f') simp_all
next
  case (3 name sh n c g r T e vs)
  then show ?case by (cases f') auto
next
  case (4 name sh n c ms bl bs)
  from "4.prems" obtain ms' where f': "f' = Group n c ms' bl bs" and ev: "evolvesAll ms ms'"
    by (cases f') auto
  have la: "list_all (valueFlagWithin name sh) ms' = list_all (valueFlagWithin name sh) ms"
    using ev "4.IH" by (rule evolvesAll_list_all)
  with f' dispatchOK_evolves[OF ev] show ?case by simp
qed

lemma list_all_update:
  "list_all P ms \<Longrightarrow> P m \<Longrightarrow> list_all P (ms[i := m])"
  by (induction ms arbitrary: i) (auto split: nat.splits)

lemma inStep_observers:
  assumes "inStep name sh A B t a b"
  shows "hasAnyFlag b = hasAnyFlag a" "atEnd b = atEnd a"
    "sameNames name sh f \<Longrightarrow> canReenter True b f = canReenter True a f"
    "canReenter False b f = canReenter False a f"
proof -
  have "hasAnyFlag b = hasAnyFlag a \<and> atEnd b = atEnd a
      \<and> (sameNames name sh f \<longrightarrow> canReenter True b f = canReenter True a f)"
    using assms
  proof (cases rule: inStep_cases)
    case before
    then show ?thesis
      by (simp add: beforeToken_def hasAnyFlag_def hasShortFlag_def getLongFlag_def
          getShortFlag_def atEnd_def canReenter_def)
  next
    case on
    then have g: "\<not> flagAbsent a" "\<not> flagIsCharacter a" "\<not> flagAbsent b"
      "clearedOut a = clearedOut b" "key a = name"
      by (auto simp: onToken_def sameFlagGiven_def)
    show ?thesis
    proof (cases sh)
      case None
      with on have "\<not> flagIsCharacter b" "key b = key a"
        by (auto simp: onToken_def sameFlagGiven_def)
      with g show ?thesis
        by (simp add: hasAnyFlag_def hasShortFlag_def getLongFlag_def atEnd_def canReenter_def)
    next
      case (Some s)
      with on have "flagIsCharacter b" "charKey b = s" by (auto simp: onToken_def)
      with g Some show ?thesis
        by (simp add: hasAnyFlag_def hasShortFlag_def getLongFlag_def getShortFlag_def atEnd_def
            canReenter_def sameNames_def)
    qed
  next
    case after
    then have "shifted 1 a b" by (simp add: afterToken_def)
    from shifted_observers[OF this] show ?thesis by simp
  qed
  then show "hasAnyFlag b = hasAnyFlag a" "atEnd b = atEnd a"
    "sameNames name sh f \<Longrightarrow> canReenter True b f = canReenter True a f"
    by simp_all
  show "canReenter False b f = canReenter False a f" by (simp add: canReenter_def)
qed

lemma before_token_observers:
  assumes "beforeToken A B t a b"
  shows "hasLongFlag b = hasLongFlag a" "hasShortFlag b = hasShortFlag a"
    "getLongFlag b = getLongFlag a" "getShortFlag b = getShortFlag a"
    "ownName n c b = ownName n c a"
  using assms
  by (simp_all add: beforeToken_def hasLongFlag_def hasShortFlag_def getLongFlag_def
      getShortFlag_def ownName_def)

lemma onToken_dispatch:
  assumes "onToken name sh t a b" and "dispatchOK name sh ms bl bs"
  shows "dispatchesValue ms bl bs a b"
proof (cases sh)
  case None
  with assms(1) have "\<not> flagIsCharacter b" "key b = key a" "key a = name"
    by (auto simp: onToken_def sameFlagGiven_def)
  with assms(2) show ?thesis
    by (auto simp: dispatchesValue_def dispatchOK_def split: option.splits if_splits)
next
  case (Some s)
  with assms(1) have "flagIsCharacter b" "charKey b = s" "key a = name"
    by (auto simp: onToken_def)
  with assms(2) Some show ?thesis
    by (auto simp: dispatchesValue_def dispatchOK_def split: option.splits if_splits)
qed

lemma onToken_notOwn:
  assumes "onToken name sh t a b" and "notOwn name sh n c"
  shows "\<not> ownName n c a" "\<not> ownName n c b"
proof -
  from assms(1) have g: "\<not> flagIsCharacter a" "key a = name" "flagIsCharacter b \<or> key b = key a"
    by (auto simp: onToken_def sameFlagGiven_def)
  with assms(2) show "\<not> ownName n c a"
    by (auto simp: ownName_def notOwn_def hasLongFlag_def hasShortFlag_def getLongFlag_def)
  show "\<not> ownName n c b"
  proof (cases sh)
    case None
    with assms(1) g have "\<not> flagIsCharacter b" "key b = name" by (auto simp: onToken_def)
    with assms(2) show ?thesis
      by (auto simp: ownName_def notOwn_def hasLongFlag_def hasShortFlag_def getLongFlag_def)
  next
    case (Some s)
    with assms(1) have "flagIsCharacter b" "charKey b = s" by (auto simp: onToken_def)
    with assms(2) Some show ?thesis
      by (auto simp: ownName_def notOwn_def hasLongFlag_def hasShortFlag_def getShortFlag_def)
  qed
qed

lemma valueFlagHere_onToken:
  "valueFlagHere name sh f \<Longrightarrow> onToken name sh t a b \<Longrightarrow>
     sameOutcome (\<lambda>a' b'. shifted 1 a' b' \<and> position a < position a' \<or> a' = a \<and> b' = b)
       (parseArgsR k f a) (parseArgsR k f b)"
proof (induction k arbitrary: f)
  case 0
  show ?case by (simp add: sameOutcome_simps)
next
  case (Suc k)
  note h = Suc.prems(1) and on = Suc.prems(2)
  from on have g: "sameFlagGiven a b" by (simp add: onToken_def)
  show ?case
  proof (cases f)
    case (Prim n c T p v)
    have "sameOutcome (\<lambda>a' b'. shifted 1 a' b' \<and> position a < position a' \<or> a' = a \<and> b' = b)
            (parseSingleton n c T p v a) (parseSingleton n c T p v b)"
      using sameFlagGiven_parseSingleton[OF g] by (rule sameOutcome_mono) simp
    with Prim show ?thesis by simp
  next
    case (Switch n c p)
    with h show ?thesis by simp
  next
    case (Group n c ms bl bs)
    with h have no: "notOwn name sh n c" and d: "dispatchOK name sh ms bl bs" by simp_all
    from sameFlagGiven_group[OF g onToken_dispatch[OF on d] onToken_notOwn[OF on no], of "Suc k"]
      Group show ?thesis by simp
  next
    case (Vector n c gr r T e vs)
    with h have he: "valueFlagHere name sh (instantiate T n c)" by simp
    from Suc.IH[OF he on] show ?thesis
    proof (cases rule: sameOutcome_cases)
      case ub
      with Vector show ?thesis by (simp add: sameOutcome_simps)
    next
      case oof
      with Vector show ?thesis by (simp add: sameOutcome_simps)
    next
      case (fail flag a' b')
      with Vector show ?thesis by (simp add: sameOutcome_simps)
    next
      case (ret flag a' b')
      from ret(3) show ?thesis
      proof
        assume "a' = a \<and> b' = b"
        with Vector ret(1,2) show ?thesis by (simp add: sameOutcome_simps)
      next
        assume sp: "shifted 1 a' b' \<and> position a < position a'"
        then have s: "shifted 1 a' b'" and p: "position a < position a'" by simp_all
        have pb: "position b = position a" using g by (simp add: sameFlagGiven_def)
        have ta: "tell a \<noteq> tell a'" using p by (simp add: tell_def)
        have tb: "tell b \<noteq> tell b'" using p pb s by (simp add: tell_def shifted_def)
        have o: "hasAnyFlag b' = hasAnyFlag a'" "canReenter r b' flag = canReenter r a' flag"
          using shifted_observers[OF s] by simp_all
        show ?thesis
        proof (cases "gr \<and> (\<not> hasAnyFlag a' \<or> canReenter r a' flag)")
          case False
          with Vector ret(1,2) sp ta tb o show ?thesis by (auto simp: sameOutcome_simps)
        next
          case True
          let ?V = "Vector n c gr r T True (vs @ [flag])"
          have ea: "parseArgsR (Suc k) f a = parseArgsR k ?V a'"
            using Vector ret(1) ta True by simp
          have eb: "parseArgsR (Suc k) f b = parseArgsR k ?V b'"
            using Vector ret(2) tb True o by simp
          from shifted_simulation(1)[OF s, of k ?V] show ?thesis
          proof (cases rule: sameResult_cases)
            case ub
            with ea eb show ?thesis by (simp add: sameOutcome_simps)
          next
            case oof
            with ea eb show ?thesis by (simp add: sameOutcome_simps)
          next
            case (ret ok f2 a2 b2)
            have "position a' \<le> position a2" using ret(1) by (rule position_mono(1))
            with p ret ea eb show ?thesis by (simp add: sameOutcome_simps)
          qed
        qed
      qed
    qed
  qed
qed

lemma followedBy_late:
  "t \<le> position a \<Longrightarrow> followedBy t (parseArgsR k f a) rq"
  "t \<le> position a \<Longrightarrow> followedBy t (groupLoop k n c ms bl bs a) rq"
proof -
  assume t: "t \<le> position a"
  show "followedBy t (parseArgsR k f a) rq"
  proof (cases "parseArgsR k f a")
    case (Ret x)
    obtain ok f' a' where x: "x = (ok, f', a')" by (cases x) auto
    with Ret have "position a \<le> position a'" by (auto dest: position_mono(1))
    with t Ret x show ?thesis by (simp add: followedBy_def)
  qed (simp_all add: followedBy_def)
  show "followedBy t (groupLoop k n c ms bl bs a) rq"
  proof (cases "groupLoop k n c ms bl bs a")
    case (Ret x)
    obtain ok f' a' where x: "x = (ok, f', a')" by (cases x) auto
    with Ret have "position a \<le> position a'" by (auto dest: position_mono(2))
    with t Ret x show ?thesis by (simp add: followedBy_def)
  qed (simp_all add: followedBy_def)
qed

lemma late_parseArgsR:
  assumes s: "inStep name sh A B t a b" and p: "t \<le> position a"
    and h: "position a = t \<Longrightarrow> valueFlagHere name sh f"
  shows "sameOutcome (inStep name sh A B t) (parseArgsR k f a) (parseArgsR k f b)"
  using s
proof (cases rule: inStep_cases)
  case before
  with p show ?thesis by (simp add: beforeToken_def)
next
  case on
  then have "position a = t" by (simp add: onToken_def)
  from valueFlagHere_onToken[OF h[OF this] on] show ?thesis
    by (rule sameOutcome_mono) (use on in \<open>auto simp: inStep_def afterToken_def onToken_def\<close>)
next
  case after
  then have s1: "shifted 1 a b" and pa: "t < position a" by (simp_all add: afterToken_def)
  from shifted_simulation(1)[OF s1, of k f] show ?thesis
  proof (cases rule: sameResult_cases)
    case ub
    then show ?thesis by (simp add: sameOutcome_simps)
  next
    case oof
    then show ?thesis by (simp add: sameOutcome_simps)
  next
    case (ret ok f2 a2 b2)
    have "position a \<le> position a2" using ret(1) by (rule position_mono(1))
    with pa ret show ?thesis by (simp add: sameOutcome_simps inStep_def afterToken_def)
  qed
qed

lemma late_groupLoop:
  assumes s: "inStep name sh A B t a b" and p: "t \<le> position a"
    and d: "dispatchOK name sh ms bl bs"
  shows "sameOutcome (inStep name sh A B t) (groupLoop k n c ms bl bs a) (groupLoop k n c ms bl bs b)"
  using s
proof (cases rule: inStep_cases)
  case before
  with p show ?thesis by (simp add: beforeToken_def)
next
  case on
  then have g: "sameFlagGiven a b" by (simp add: onToken_def)
  from sameFlagGiven_groupLoop[OF g onToken_dispatch[OF on d], of k n c] show ?thesis
    by (rule sameOutcome_mono) (use on in \<open>auto simp: inStep_def afterToken_def onToken_def\<close>)
next
  case after
  then have s1: "shifted 1 a b" and pa: "t < position a" by (simp_all add: afterToken_def)
  from shifted_simulation(2)[OF s1, of k n c ms bl bs] show ?thesis
  proof (cases rule: sameResult_cases)
    case ub
    then show ?thesis by (simp add: sameOutcome_simps)
  next
    case oof
    then show ?thesis by (simp add: sameOutcome_simps)
  next
    case (ret ok f2 a2 b2)
    have "position a \<le> position a2" using ret(1) by (rule position_mono(2))
    with pa ret show ?thesis by (simp add: sameOutcome_simps inStep_def afterToken_def)
  qed
qed


lemma refusesAsValue_evolves:
  "evolves f f' \<Longrightarrow> refusesAsValue ta tb f' = refusesAsValue ta tb f"
proof (induction ta tb f arbitrary: f' rule: refusesAsValue.induct)
  case (1 ta tb n c T p v)
  then show ?case by (cases f') simp_all
next
  case (2 ta tb n c p)
  then show ?case by (cases f') simp_all
next
  case (3 ta tb n c g r T e vs)
  then show ?case by (cases f') auto
next
  case (4 ta tb n c ms bl bs)
  from "4.prems" obtain ms' where f': "f' = Group n c ms' bl bs" and ev: "evolvesAll ms ms'"
    by (cases f') auto
  have "list_all (refusesAsValue ta tb) ms' = list_all (refusesAsValue ta tb) ms"
    using ev "4.IH" by (rule evolvesAll_list_all)
  with f' show ?case by simp
qed

lemma before_nextRawArgument_token:
  assumes tl: "tokenLists name sh v t A B" and bt: "beforeToken A B t a b"
    and eq: "Suc (position a) = t"
  shows "\<exists>a' b'. nextRawArgument a = Ret (''--'' @ name @ ''='' @ v, a')
             \<and> nextRawArgument b = Ret (tokenOf name sh, b')"
proof -
  from bt have av: "argv a = A" "argc a = length A" "argv b = B" "argc b = length B"
    and pos: "position b = position a"
    by (simp_all add: beforeToken_def)
  from tl have t: "t < length A" and At: "A ! t = ''--'' @ name @ ''='' @ v"
    by (simp_all add: tokenLists_def)
  have lb: "length B = Suc (length A)" using tl by (rule tokenLists_length)
  note nth = tokenLists_nth[OF tl]
  show ?thesis
    using eq nth(2) At av t lb pos by (simp add: nextRawArgument_def)
qed

lemma followedBy_simps:
  "followedBy t UB rq" "followedBy t OutOfFuel rq" "followedBy t (Ret (False, f, a)) rq"
  "followedBy t (Ret (True, f, a)) rq = (position a < t \<longrightarrow> rq = Ret (True, f, cutAt t a))"
  by (simp_all add: followedBy_def)

lemma beforeToken_lists:
  assumes "tokenLists name sh v t A B" and "beforeToken A B t a b"
  shows "argc a = length (argv a)" "t \<le> length (argv a)" "position a < t"
  using assms by (simp_all add: beforeToken_def tokenLists_def)

lemma before_next_step:
  assumes tl: "tokenLists name sh v t A B" and bt: "beforeToken A B t a b"
  shows "sameOutcome (inStep name sh A B t)
      (case parseNextArg a of Ret ar' \<Rightarrow> Ret (True, f, ar') | UB \<Rightarrow> UB | OutOfFuel \<Rightarrow> OutOfFuel)
      (case parseNextArg b of Ret ar' \<Rightarrow> Ret (True, f, ar') | UB \<Rightarrow> UB | OutOfFuel \<Rightarrow> OutOfFuel)
    \<and> followedBy t
      (case parseNextArg a of Ret ar' \<Rightarrow> Ret (True, f, ar') | UB \<Rightarrow> UB | OutOfFuel \<Rightarrow> OutOfFuel)
      (case parseNextArg (cutAt t a) of Ret ar' \<Rightarrow> Ret (True, f, ar') | UB \<Rightarrow> UB
         | OutOfFuel \<Rightarrow> OutOfFuel)"
proof (cases "parseNextArg a")
  case (Ret a')
  with before_parseNextArg[OF tl bt] obtain b' where
    b': "parseNextArg b = Ret b'" "inStep name sh A B t a' b'"
    by (cases "parseNextArg b") simp_all
  have "parseNextArg (cutAt t a) = Ret (cutAt t a')" if "position a' < t"
    using beforeToken_lists(1,2)[OF tl bt] Ret that by (rule cutAt_parseNextArg)
  with Ret b' show ?thesis by (simp add: sameOutcome_simps followedBy_simps)
next
  case UB
  with before_parseNextArg[OF tl bt] have "parseNextArg b = UB"
    by (cases "parseNextArg b") simp_all
  with UB show ?thesis by (simp add: sameOutcome_simps followedBy_simps)
next
  case OutOfFuel
  with before_parseNextArg[OF tl bt] have "parseNextArg b = OutOfFuel"
    by (cases "parseNextArg b") simp_all
  with OutOfFuel show ?thesis by (simp add: sameOutcome_simps followedBy_simps)
qed

lemma before_parseSingleton:
  assumes tl: "tokenLists name sh v t A B" and bt: "beforeToken A B t a b"
    and q: "ParseType T (''--'' @ name @ ''='' @ v) = None \<and> ParseType T (tokenOf name sh) = None
            \<or> parseSingleton n c T p x (cutAt t a) \<noteq> UB"
  shows "sameOutcome (inStep name sh A B t) (parseSingleton n c T p x a) (parseSingleton n c T p x b)
    \<and> followedBy t (parseSingleton n c T p x a) (parseSingleton n c T p x (cutAt t a))"
proof -
  note obs = before_observers[OF bt tl]
  note cobs = cutAt_observers(1,2,12)[of t a]
  note l = beforeToken_lists[OF tl bt]
  show ?thesis
  proof (cases "hasValue a")
    case True
    show ?thesis
    proof (cases "ParseType T (getValue a)")
      case None
      with True obs cobs show ?thesis
        by (simp add: parseSingleton_def sameOutcome_simps followedBy_simps)
    next
      case (Some v')
      with True obs cobs before_next_step[OF tl bt, of "Prim n c T True v'"] show ?thesis
        by (simp add: parseSingleton_def)
    qed
  next
    case False
    from l(3) consider "Suc (position a) < t" | "Suc (position a) = t" by linarith
    then show ?thesis
    proof cases
      case 1
      from before_nextRawArgument[OF tl bt 1] obtain r a1 b1 where
        n: "nextRawArgument a = Ret (r, a1)" "nextRawArgument b = Ret (r, b1)"
        and b1: "beforeToken A B t a1 b1" by blast
      have nq: "nextRawArgument (cutAt t a) = Ret (r, cutAt t a1)"
        using l(2) n(1) 1 by (rule cutAt_nextRawArgument)
      show ?thesis
      proof (cases "ParseType T r")
        case None
        with False obs cobs l(3) n nq show ?thesis
          by (simp add: parseSingleton_def sameOutcome_simps followedBy_simps)
      next
        case (Some v')
        with False obs cobs l(3) n nq before_next_step[OF tl b1, of "Prim n c T True v'"]
        show ?thesis by (simp add: parseSingleton_def)
      qed
    next
      case 2
      then have "nextRawArgument (cutAt t a) = UB" by (rule cutAt_nextRawArgument_UB)
      with False cobs l(3) have "parseSingleton n c T p x (cutAt t a) = UB"
        by (simp add: parseSingleton_def)
      with q have r: "ParseType T (''--'' @ name @ ''='' @ v) = None"
        "ParseType T (tokenOf name sh) = None" by simp_all
      from before_nextRawArgument_token[OF tl bt 2] obtain a1 b1 where
        n: "nextRawArgument a = Ret (''--'' @ name @ ''='' @ v, a1)"
          "nextRawArgument b = Ret (tokenOf name sh, b1)" by blast
      with False obs r show ?thesis
        by (simp add: parseSingleton_def sameOutcome_simps followedBy_simps)
    qed
  qed
qed

lemma before_parseSwitch:
  assumes tl: "tokenLists name sh v t A B" and bt: "beforeToken A B t a b"
  shows "sameOutcome (inStep name sh A B t) (parseSwitch n c p a) (parseSwitch n c p b)
    \<and> followedBy t (parseSwitch n c p a) (parseSwitch n c p (cutAt t a))"
proof (cases "hasValue a")
  case True
  with before_observers[OF bt tl] cutAt_observers(1)[of t a] show ?thesis
    by (simp add: parseSwitch_def sameOutcome_simps followedBy_simps)
next
  case False
  with before_observers[OF bt tl] cutAt_observers(1)[of t a]
    before_next_step[OF tl bt, of "Switch n c True"]
  show ?thesis by (simp add: parseSwitch_def)
qed

lemma onToken_canReenter:
  assumes "onToken name sh t a b" and "canReenter r a flag"
  shows "r" "hasFlagL flag name"
proof -
  from assms(1) have "\<not> flagIsCharacter a" "key a = name"
    by (auto simp: onToken_def sameFlagGiven_def)
  with assms(2) show "r" "hasFlagL flag name"
    by (auto simp: canReenter_def hasShortFlag_def getLongFlag_def split: if_splits)
qed

lemma onToken_hasAnyFlag: "onToken name sh t a b \<Longrightarrow> hasAnyFlag a"
  by (simp add: onToken_def sameFlagGiven_def hasAnyFlag_def)

lemma inStep_on: "inStep name sh A B t a b \<Longrightarrow> position a = t \<Longrightarrow> onToken name sh t a b"
  by (auto simp: inStep_def beforeToken_def afterToken_def)


lemma before_both:
  assumes tl: "tokenLists name sh v t A B"
  shows "(\<forall>f a b. valueFlagWithin name sh f \<longrightarrow> beforeToken A B t a b \<longrightarrow>
            (refusesAsValue (''--'' @ name @ ''='' @ v) (tokenOf name sh) f
             \<or> parseArgsR k f (cutAt t a) \<noteq> UB) \<longrightarrow>
            sameOutcome (inStep name sh A B t) (parseArgsR k f a) (parseArgsR k f b)
            \<and> followedBy t (parseArgsR k f a) (parseArgsR k f (cutAt t a)))
    \<and> (\<forall>n c ms bl bs a b. list_all (valueFlagWithin name sh) ms \<longrightarrow> dispatchOK name sh ms bl bs \<longrightarrow>
          beforeToken A B t a b \<longrightarrow>
          (list_all (refusesAsValue (''--'' @ name @ ''='' @ v) (tokenOf name sh)) ms
           \<or> groupLoop k n c ms bl bs (cutAt t a) \<noteq> UB) \<longrightarrow>
            sameOutcome (inStep name sh A B t) (groupLoop k n c ms bl bs a) (groupLoop k n c ms bl bs b)
            \<and> followedBy t (groupLoop k n c ms bl bs a) (groupLoop k n c ms bl bs (cutAt t a)))"
proof (induction k)
  case 0
  show ?case by (simp add: sameOutcome_simps followedBy_simps)
next
  case (Suc k)
  note IHp = Suc.IH[THEN conjunct1, rule_format]
  note IHg = Suc.IH[THEN conjunct2, rule_format]
  let ?R = "refusesAsValue (''--'' @ name @ ''='' @ v) (tokenOf name sh)"
  have P: "sameOutcome (inStep name sh A B t) (parseArgsR (Suc k) f a) (parseArgsR (Suc k) f b)
            \<and> followedBy t (parseArgsR (Suc k) f a) (parseArgsR (Suc k) f (cutAt t a))"
    if w: "valueFlagWithin name sh f" and bt: "beforeToken A B t a b"
      and q: "?R f \<or> parseArgsR (Suc k) f (cutAt t a) \<noteq> UB" for f a b
  proof (cases f)
    case (Prim n c T p x)
    with q have "ParseType T (''--'' @ name @ ''='' @ v) = None \<and> ParseType T (tokenOf name sh) = None
        \<or> parseSingleton n c T p x (cutAt t a) \<noteq> UB" by simp
    from before_parseSingleton[OF tl bt this] Prim show ?thesis by simp
  next
    case (Switch n c p)
    with before_parseSwitch[OF tl bt] show ?thesis by simp
  next
    case (Vector n c gr r T e vs)
    let ?E = "instantiate T n c"
    from w Vector have we: "valueFlagWithin name sh ?E"
      and wr: "gr \<and> r \<Longrightarrow> sameNames name sh ?E"
      and wh: "gr \<and> r \<Longrightarrow> hasFlagL ?E name \<Longrightarrow> valueFlagHere name sh ?E"
      by (simp_all split: if_splits)
    have s0: "inStep name sh A B t a b" using bt by (simp add: inStep_def)
    from q Vector have qe: "?R ?E \<or> parseArgsR k ?E (cutAt t a) \<noteq> UB"
      by (auto split: outcome.splits)
    from IHp[OF we bt qe]
    have so: "sameOutcome (inStep name sh A B t) (parseArgsR k ?E a) (parseArgsR k ?E b)"
      and fb: "followedBy t (parseArgsR k ?E a) (parseArgsR k ?E (cutAt t a))" by simp_all
    from so show ?thesis
    proof (cases rule: sameOutcome_cases)
      case ub
      with Vector show ?thesis by (simp add: sameOutcome_simps followedBy_simps)
    next
      case oof
      with Vector show ?thesis by (simp add: sameOutcome_simps followedBy_simps)
    next
      case (fail flag a' b')
      with Vector show ?thesis by (simp add: sameOutcome_simps followedBy_simps)
    next
      case (ret flag a' b')
      have pm: "position a \<le> position a'" using ret(1) by (rule position_mono(1))
      have te: "(tell b = tell b') = (tell a = tell a')" using s0 ret(3) pm by (rule inStep_tell)
      have ha: "hasAnyFlag b' = hasAnyFlag a'" using inStep_observers(1)[OF ret(3)] .
      have ev: "evolves ?E flag" using ret(1) by (rule parseArgsR_evolves)
      have cr: "canReenter r b' flag = canReenter r a' flag" if "gr"
      proof (cases r)
        case True
        with that wr have "sameNames name sh ?E" by simp
        then have "sameNames name sh flag"
          using evolves_hasFlagL(1)[OF ev] evolves_hasFlagS(1)[OF ev]
          by (simp add: sameNames_def split: option.splits)
        from inStep_observers(3)[OF ret(3) this] True show ?thesis by simp
      next
        case False
        with inStep_observers(4)[OF ret(3)] show ?thesis by simp
      qed
      have qa: "parseArgsR k ?E (cutAt t a) = Ret (True, flag, cutAt t a')" if "position a' < t"
        using fb ret(1) that by (simp add: followedBy_simps)
      note co = cutAt_observers(3,10,11)
      show ?thesis
      proof (cases "tell a = tell a'")
        case True
        with Vector ret te qa co show ?thesis by (simp add: sameOutcome_simps followedBy_simps)
      next
        case False
        show ?thesis
        proof (cases "gr \<and> (\<not> hasAnyFlag a' \<or> canReenter r a' flag)")
          case nogo: False
          with Vector ret te False ha cr qa co show ?thesis
            by (auto simp: sameOutcome_simps followedBy_simps)
        next
          case True
          let ?V = "Vector n c gr r T True (vs @ [flag])"
          have ea: "parseArgsR (Suc k) f a = parseArgsR k ?V a'"
            using Vector ret(1) False True by simp
          have eb: "parseArgsR (Suc k) f b = parseArgsR k ?V b'"
            using Vector ret(2) False te True ha cr by simp
          have wV: "valueFlagWithin name sh ?V" using w Vector by simp
          show ?thesis
          proof (cases "position a' < t")
            case early: True
            have eq: "parseArgsR (Suc k) f (cutAt t a) = parseArgsR k ?V (cutAt t a')"
              using Vector qa[OF early] False True co by simp
            have bt': "beforeToken A B t a' b'" using ret(3) early by (rule inStep_before)
            from q eq Vector have "?R ?V \<or> parseArgsR k ?V (cutAt t a') \<noteq> UB" by auto
            from IHp[OF wV bt' this] ea eb eq show ?thesis by simp
          next
            case late: False
            then have p: "t \<le> position a'" by simp
            have h: "valueFlagHere name sh ?V" if "position a' = t"
            proof -
              from ret(3) that have on: "onToken name sh t a' b'" by (rule inStep_on)
              from True onToken_hasAnyFlag[OF on] have c: "canReenter r a' flag" by simp
              from onToken_canReenter[OF on c] have "r" "hasFlagL flag name" by simp_all
              then have "hasFlagL ?E name" using evolves_hasFlagL(1)[OF ev] by simp
              with True \<open>r\<close> wh show ?thesis by simp
            qed
            from late_parseArgsR[OF ret(3) p h, of k] followedBy_late(1)[OF p, of k ?V] ea eb
            show ?thesis by simp
          qed
        qed
      qed
    qed
  next
    case (Group n c ms bl bs)
    with w have la: "list_all (valueFlagWithin name sh) ms" and d: "dispatchOK name sh ms bl bs"
      by simp_all
    note o = before_token_observers(1,2,5)[OF bt]
    note co = cutAt_observers(4,5,9)
    show ?thesis
    proof (cases "hasLongFlag a = hasShortFlag a")
      case True
      with Group o co show ?thesis by (simp add: sameOutcome_simps followedBy_simps)
    next
      case False
      show ?thesis
      proof (cases "ownName n c a")
        case own: False
        from q Group False own co
        have "list_all ?R ms \<or> groupLoop k n c ms bl bs (cutAt t a) \<noteq> UB" by auto
        from IHg[OF la d bt this] Group False own o co show ?thesis by simp
      next
        case True
        show ?thesis
        proof (cases "parseNextArg a")
          case (Ret a')
          with before_parseNextArg[OF tl bt] obtain b' where
            b': "parseNextArg b = Ret b'" "inStep name sh A B t a' b'"
            by (cases "parseNextArg b") simp_all
          have ea: "parseArgsR (Suc k) f a = groupLoop k n c ms bl bs a'"
            using Group False True Ret by simp
          have eb: "parseArgsR (Suc k) f b = groupLoop k n c ms bl bs b'"
            using Group False True o b'(1) by simp
          show ?thesis
          proof (cases "position a' < t")
            case early: True
            have "parseNextArg (cutAt t a) = Ret (cutAt t a')"
              using beforeToken_lists(1,2)[OF tl bt] Ret early by (rule cutAt_parseNextArg)
            then have eq: "parseArgsR (Suc k) f (cutAt t a) = groupLoop k n c ms bl bs (cutAt t a')"
              using Group False True co by simp
            have bt': "beforeToken A B t a' b'" using b'(2) early by (rule inStep_before)
            from q eq Group
            have "list_all ?R ms \<or> groupLoop k n c ms bl bs (cutAt t a') \<noteq> UB" by auto
            from IHg[OF la d bt' this] ea eb eq show ?thesis by simp
          next
            case late: False
            then have p: "t \<le> position a'" by simp
            from late_groupLoop[OF b'(2) p d, of k n c] followedBy_late(2)[OF p, of k n c ms bl bs]
              ea eb show ?thesis by simp
          qed
        next
          case UB
          with before_parseNextArg[OF tl bt] have "parseNextArg b = UB"
            by (cases "parseNextArg b") simp_all
          with Group False True o UB show ?thesis by (simp add: sameOutcome_simps followedBy_simps)
        next
          case OutOfFuel
          with before_parseNextArg[OF tl bt] have "parseNextArg b = OutOfFuel"
            by (cases "parseNextArg b") simp_all
          with Group False True o OutOfFuel show ?thesis
            by (simp add: sameOutcome_simps followedBy_simps)
        qed
      qed
    qed
  qed
  have G: "sameOutcome (inStep name sh A B t) (groupLoop (Suc k) n c ms bl bs a)
             (groupLoop (Suc k) n c ms bl bs b)
           \<and> followedBy t (groupLoop (Suc k) n c ms bl bs a)
               (groupLoop (Suc k) n c ms bl bs (cutAt t a))"
    if la: "list_all (valueFlagWithin name sh) ms" and d: "dispatchOK name sh ms bl bs"
      and bt: "beforeToken A B t a b"
      and q: "list_all ?R ms \<or> groupLoop (Suc k) n c ms bl bs (cutAt t a) \<noteq> UB"
      for n c ms bl bs a b
  proof -
    have s0: "inStep name sh A B t a b" using bt by (simp add: inStep_def)
    note o = before_token_observers(1,3,4)[OF bt] inStep_observers(2)[OF s0]
    note co = cutAt_observers(4,6,7,8,11)
    have pa: "position a < t" using bt by (simp add: beforeToken_def)
    show ?thesis
    proof (cases "atEnd a")
      case True
      with o co s0 pa show ?thesis by (simp add: sameOutcome_simps followedBy_simps)
    next
      case ne: False
      define look where "look = (if hasLongFlag a then map_of bl (getLongFlag a)
                                 else map_of bs (getShortFlag a))"
      have lookb: "(if hasLongFlag b then map_of bl (getLongFlag b)
                    else map_of bs (getShortFlag b)) = look"
        using o by (simp add: look_def)
      have lookq: "(if hasLongFlag (cutAt t a) then map_of bl (getLongFlag (cutAt t a))
                    else map_of bs (getShortFlag (cutAt t a))) = look"
        using co by (simp add: look_def)
      show ?thesis
      proof (cases look)
        case None
        have "groupLoop (Suc k) n c ms bl bs a = Ret (True, Group n c ms bl bs, a)"
          using ne None by (simp add: look_def split: if_splits)
        moreover have "groupLoop (Suc k) n c ms bl bs b = Ret (True, Group n c ms bl bs, b)"
          using ne o None lookb by (simp split: if_splits)
        moreover have "groupLoop (Suc k) n c ms bl bs (cutAt t a)
            = Ret (True, Group n c ms bl bs, cutAt t a)"
          using ne co None lookq by (simp split: if_splits)
        ultimately show ?thesis using s0 by (simp add: sameOutcome_simps followedBy_simps)
      next
        case (Some i)
        show ?thesis
        proof (cases "i \<ge> length ms")
          case True
          have "groupLoop (Suc k) n c ms bl bs a = UB"
            using ne Some True by (simp add: look_def split: if_splits)
          moreover have "groupLoop (Suc k) n c ms bl bs b = UB"
            using ne o Some lookb True by (simp split: if_splits)
          ultimately show ?thesis by (simp add: sameOutcome_simps followedBy_simps)
        next
          case il: False
          show ?thesis
          proof (cases "atCapacity (ms ! i)")
            case True
            have "groupLoop (Suc k) n c ms bl bs a = Ret (True, Group n c ms bl bs, a)"
              using ne Some il True by (simp add: look_def split: if_splits)
            moreover have "groupLoop (Suc k) n c ms bl bs b = Ret (True, Group n c ms bl bs, b)"
              using ne o Some lookb il True by (simp split: if_splits)
            moreover have "groupLoop (Suc k) n c ms bl bs (cutAt t a)
                = Ret (True, Group n c ms bl bs, cutAt t a)"
              using ne co Some lookq il True by (simp split: if_splits)
            ultimately show ?thesis using s0 by (simp add: sameOutcome_simps followedBy_simps)
          next
            case nc: False
            from il have ilt: "i < length ms" by simp
            have wi: "valueFlagWithin name sh (ms ! i)"
              using la ilt by (simp add: list_all_length)
            have run_a: "groupLoop (Suc k) n c ms bl bs a =
                (case parseArgsR k (ms ! i) a of
                  Ret (ok, m, ar') \<Rightarrow>
                    if \<not> ok then Ret (False, Group n c (ms[i := m]) bl bs, ar')
                    else if hasLongFlag a \<and> tell ar' = tell a
                    then Ret (True, Group n c (ms[i := m]) bl bs, ar')
                    else groupLoop k n c (ms[i := m]) bl bs ar'
                | UB \<Rightarrow> UB
                | OutOfFuel \<Rightarrow> OutOfFuel)"
              using ne Some il nc
              by (auto simp: look_def split: if_splits outcome.splits prod.splits)
            have run_b: "groupLoop (Suc k) n c ms bl bs b =
                (case parseArgsR k (ms ! i) b of
                  Ret (ok, m, ar') \<Rightarrow>
                    if \<not> ok then Ret (False, Group n c (ms[i := m]) bl bs, ar')
                    else if hasLongFlag a \<and> tell ar' = tell b
                    then Ret (True, Group n c (ms[i := m]) bl bs, ar')
                    else groupLoop k n c (ms[i := m]) bl bs ar'
                | UB \<Rightarrow> UB
                | OutOfFuel \<Rightarrow> OutOfFuel)"
              using ne o Some lookb il nc
              by (auto split: if_splits outcome.splits prod.splits)
            have run_q: "groupLoop (Suc k) n c ms bl bs (cutAt t a) =
                (case parseArgsR k (ms ! i) (cutAt t a) of
                  Ret (ok, m, ar') \<Rightarrow>
                    if \<not> ok then Ret (False, Group n c (ms[i := m]) bl bs, ar')
                    else if hasLongFlag a \<and> tell ar' = tell a
                    then Ret (True, Group n c (ms[i := m]) bl bs, ar')
                    else groupLoop k n c (ms[i := m]) bl bs ar'
                | UB \<Rightarrow> UB
                | OutOfFuel \<Rightarrow> OutOfFuel)"
              using ne co Some lookq il nc
              by (auto split: if_splits outcome.splits prod.splits)
            from q run_q ilt have qc: "?R (ms ! i) \<or> parseArgsR k (ms ! i) (cutAt t a) \<noteq> UB"
              by (auto simp: list_all_length split: outcome.splits)
            from IHp[OF wi bt qc]
            have so: "sameOutcome (inStep name sh A B t) (parseArgsR k (ms ! i) a)
                        (parseArgsR k (ms ! i) b)"
              and fb: "followedBy t (parseArgsR k (ms ! i) a) (parseArgsR k (ms ! i) (cutAt t a))"
              by simp_all
            from so show ?thesis
            proof (cases rule: sameOutcome_cases)
              case ub
              then show ?thesis unfolding run_a run_b by (simp add: sameOutcome_simps followedBy_simps)
            next
              case oof
              then show ?thesis unfolding run_a run_b by (simp add: sameOutcome_simps followedBy_simps)
            next
              case (fail m a' b')
              then show ?thesis unfolding run_a run_b by (simp add: sameOutcome_simps followedBy_simps)
            next
              case (ret m a' b')
              have pm: "position a \<le> position a'" using ret(1) by (rule position_mono(1))
              have te: "(tell b = tell b') = (tell a = tell a')"
                using s0 ret(3) pm by (rule inStep_tell)
              have ev: "evolves (ms ! i) m" using ret(1) by (rule parseArgsR_evolves)
              have la': "list_all (valueFlagWithin name sh) (ms[i := m])"
                using la wi valueFlagWithin_evolves[OF ev, of name sh] by (simp add: list_all_update)
              have "evolvesAll ms (ms[i := m])" using ilt ev by (rule evolvesAll_update)
              then have d': "dispatchOK name sh (ms[i := m]) bl bs"
                using d by (simp add: dispatchOK_evolves)
              have qa: "parseArgsR k (ms ! i) (cutAt t a) = Ret (True, m, cutAt t a')"
                if "position a' < t"
                using fb ret(1) that by (simp add: followedBy_simps)
              show ?thesis
              proof (cases "hasLongFlag a \<and> tell a' = tell a")
                case True
                with ret te qa show ?thesis
                  unfolding run_a run_b run_q
                  by (auto simp: sameOutcome_simps followedBy_simps cutAt_observers(11))
              next
                case False
                have ea: "groupLoop (Suc k) n c ms bl bs a = groupLoop k n c (ms[i := m]) bl bs a'"
                  unfolding run_a using ret(1) False by auto
                have eb: "groupLoop (Suc k) n c ms bl bs b = groupLoop k n c (ms[i := m]) bl bs b'"
                  unfolding run_b using ret(2) False te by auto
                show ?thesis
                proof (cases "position a' < t")
                  case early: True
                  have eq: "groupLoop (Suc k) n c ms bl bs (cutAt t a)
                      = groupLoop k n c (ms[i := m]) bl bs (cutAt t a')"
                    unfolding run_q using qa[OF early] False by (auto simp: cutAt_observers(11))
                  have bt': "beforeToken A B t a' b'" using ret(3) early by (rule inStep_before)
                  have rm: "?R m = ?R (ms ! i)" using ev by (rule refusesAsValue_evolves)
                  have "list_all ?R (ms[i := m])" if ra: "list_all ?R ms"
                  proof -
                    from ra ilt have "?R (ms ! i)" by (simp add: list_all_length)
                    with rm have "?R m" by simp
                    with ra show ?thesis by (rule list_all_update)
                  qed
                  with q eq
                  have "list_all ?R (ms[i := m])
                      \<or> groupLoop k n c (ms[i := m]) bl bs (cutAt t a') \<noteq> UB" by auto
                  from IHg[OF la' d' bt' this] ea eb eq show ?thesis by simp
                next
                  case late: False
                  then have p: "t \<le> position a'" by simp
                  from late_groupLoop[OF ret(3) p d', of k n c]
                    followedBy_late(2)[OF p, of k n c "ms[i := m]" bl bs] ea eb
                  show ?thesis by simp
                qed
              qed
            qed
          qed
        qed
      qed
    qed
  qed
  from P G show ?case by blast
qed


lemma tokenLists_intro:
  "CHR ''='' \<notin> set name \<Longrightarrow> sh \<noteq> Some (CHR ''-'') \<Longrightarrow>
     tokenLists name sh v (Suc (length pre)) (p # pre @ (''--'' @ name @ ''='' @ v) # post)
       (p # pre @ tokenOf name sh # v # post)"
  by (simp add: tokenLists_def nth_append)

lemma parseArgs_anywhere:
  assumes ne: "CHR ''='' \<notin> set name" and nd: "sh \<noteq> Some (CHR ''-'')"
    and w: "pre \<noteq> [] \<Longrightarrow> valueFlagWithin name sh f"
    and h: "pre = [] \<Longrightarrow> valueFlagHere name sh f"
    and q: "refusesAsValue (''--'' @ name @ ''='' @ v) (tokenOf name sh) f
            \<or> parseArgs k f (int (length pre) + 1) (p # pre) \<noteq> UB"
  shows "parseArgs k f (int (length pre + length post) + 2)
             (p # pre @ (''--'' @ name @ ''='' @ v) # post)
           = parseArgs k f (int (length pre + length post) + 3)
               (p # pre @ tokenOf name sh # v # post)"
proof -
  let ?A = "p # pre @ (''--'' @ name @ ''='' @ v) # post"
  let ?B = "p # pre @ tokenOf name sh # v # post"
  let ?t = "Suc (length pre)"
  let ?a = "newArgReader (int (length pre + length post) + 2) ?A"
  let ?b = "newArgReader (int (length pre + length post) + 3) ?B"
  note tl = tokenLists_intro[OF ne nd, of v pre p post]
  have bt: "beforeToken ?A ?B ?t ?a ?b"
    by (simp add: beforeToken_def newArgReader_def nat_add_distrib)
  have cut: "cutAt ?t ?a = newArgReader (int (length pre) + 1) (p # pre)"
    by (simp add: cutAt_def newArgReader_def nat_add_distrib)
  have ge: "\<not> int (length pre + length post) + 2 < 2" "\<not> int (length pre + length post) + 3 < 2"
    by simp_all
  show ?thesis
  proof (cases "parseNextArg ?a")
    case UB
    with before_parseNextArg[OF tl bt] have "parseNextArg ?b = UB"
      by (cases "parseNextArg ?b") simp_all
    with UB ge show ?thesis by (simp add: parseArgs_def)
  next
    case OutOfFuel
    with before_parseNextArg[OF tl bt] have "parseNextArg ?b = OutOfFuel"
      by (cases "parseNextArg ?b") simp_all
    with OutOfFuel ge show ?thesis by (simp add: parseArgs_def)
  next
    case (Ret a1)
    with before_parseNextArg[OF tl bt] obtain b1 where
      b1: "parseNextArg ?b = Ret b1" "inStep name sh ?A ?B ?t a1 b1"
      by (cases "parseNextArg ?b") simp_all
    have p1: "position a1 = Suc 0"
      using parseNextArg_advances[OF _ _ Ret] by (simp add: newArgReader_def nat_add_distrib)
    have so: "sameOutcome (inStep name sh ?A ?B ?t) (parseArgsR k f a1) (parseArgsR k f b1)"
    proof (cases "pre = []")
      case True
      with p1 have p: "?t \<le> position a1" by simp
      from late_parseArgsR[OF b1(2) p h[OF True]] show ?thesis .
    next
      case False
      with p1 have early: "position a1 < ?t" by simp
      have pq: "parseNextArg (cutAt ?t ?a) = Ret (cutAt ?t a1)"
        using beforeToken_lists(1,2)[OF tl bt] Ret early by (rule cutAt_parseNextArg)
      from False have "\<not> int (length pre) + 1 < 2" by (cases pre) simp_all
      with q pq cut have qr: "refusesAsValue (''--'' @ name @ ''='' @ v) (tokenOf name sh) f
          \<or> parseArgsR k f (cutAt ?t a1) \<noteq> UB"
        by (auto simp: parseArgs_def split: outcome.splits)
      have bt1: "beforeToken ?A ?B ?t a1 b1" using b1(2) early by (rule inStep_before)
      from before_both[OF tl, of k, THEN conjunct1, rule_format, OF w[OF False] bt1 qr]
      show ?thesis by simp
    qed
    from so show ?thesis
    proof (cases rule: sameOutcome_cases)
      case ub
      with Ret b1(1) ge show ?thesis by (simp add: parseArgs_def)
    next
      case oof
      with Ret b1(1) ge show ?thesis by (simp add: parseArgs_def)
    next
      case (fail f' a' b')
      with Ret b1(1) ge show ?thesis by (simp add: parseArgs_def)
    next
      case (ret f' a' b')
      from inStep_observers(2)[OF ret(3)] ret(1,2) Ret b1(1) ge show ?thesis
        by (simp add: parseArgs_def)
    qed
  qed
qed

lemma example_trees_take_values:
  "valueFlagWithin ''bookmark'' None (instantiate DisplayFile [] (CHR 0x00))"
  "valueFlagWithin ''bookmark'' (Some (CHR ''b'')) (instantiate DisplayFile [] (CHR 0x00))"
  "valueFlagHere ''file'' (Some (CHR ''f'')) (instantiate DisplayFile [] (CHR 0x00))"
  "valueFlagWithin ''ind'' None scenarioA"
  "valueFlagHere ''alive'' None scenarioA"
  "valueFlagWithin ''bookmark'' (Some (CHR ''b'')) AllFlags"
  "refusesAsValue ''--ind=10'' ''--ind'' scenarioA"
  by code_simp+

lemma scenarioA_refused:
  "parseArgs 7 scenarioA 3 [''prog'', ''--param'', ''--ind=10'']
     = Ret (False,
         Group [] (CHR 0x00)
           [Prim ''alive'' (CHR 0x00) PBool False (VBool False),
            Prim ''param'' (CHR 0x00) PInt64 False (VInt 0),
            Vector ''ind'' (CHR 0x00) True True (TPrim PInt32) False []]
           [(''ind'', 2), (''param'', 1), (''alive'', 0)] [])"
  by code_simp

lemma displayFile_attached:
  "parseArgs 6 (instantiate DisplayFile [] (CHR 0x00)) 4
       [''prog'', ''--file'', ''a.txt'', ''--bookmark=3'']
     = Ret (True, Group [] (CHR 0x00)
           [Prim ''file'' (CHR ''f'') PString True (VString ''a.txt''),
            Prim ''label'' (CHR ''l'') PString False (VString []),
            Vector ''bookmark'' (CHR ''b'') True True (TPrim PInt32) True
              [Prim ''bookmark'' (CHR ''b'') PInt32 True (VInt 3)],
            Switch [] (CHR ''p'') False]
           [(''bookmark'', 2), (''label'', 1), (''file'', 0)]
           [(CHR ''p'', 3), (CHR ''b'', 2), (CHR ''l'', 1), (CHR ''f'', 0)])"
  by code_simp

lemma example_prefixes:
  "parseArgs 6 (instantiate DisplayFile [] (CHR 0x00)) 3 [''prog'', ''--file'', ''a.txt''] \<noteq> UB"
  "parseArgs 7 scenarioA 4 [''prog'', ''--alive=true'', ''--param'', ''20''] \<noteq> UB"
  "parseArgs 9 AllFlags 4 [''FlagsExample'', ''-D'', ''--file'', ''a.txt''] \<noteq> UB"
  by code_simp+

lemma displayFile_swallow:
  "parseArgs 4 (instantiate DisplayFile [] (CHR 0x00)) 3 [''prog'', ''--file'', ''--bookmark=3'']
     = Ret (True,
         Group [] (CHR 0x00)
           [Prim ''file'' (CHR ''f'') PString True (VString ''--bookmark=3''),
            Prim ''label'' (CHR ''l'') PString False (VString []),
            Vector ''bookmark'' (CHR ''b'') True True (TPrim PInt32) False [],
            Switch [] (CHR ''p'') False]
           [(''bookmark'', 2), (''label'', 1), (''file'', 0)]
           [(CHR ''p'', 3), (CHR ''b'', 2), (CHR ''l'', 1), (CHR ''f'', 0)])"
  "parseArgs 4 (instantiate DisplayFile [] (CHR 0x00)) 4 [''prog'', ''--file'', ''--bookmark'', ''3'']
     = Ret (False,
         Group [] (CHR 0x00)
           [Prim ''file'' (CHR ''f'') PString True (VString ''--bookmark''),
            Prim ''label'' (CHR ''l'') PString False (VString []),
            Vector ''bookmark'' (CHR ''b'') True True (TPrim PInt32) False [],
            Switch [] (CHR ''p'') False]
           [(''bookmark'', 2), (''label'', 1), (''file'', 0)]
           [(CHR ''p'', 3), (CHR ''b'', 2), (CHR ''l'', 1), (CHR ''f'', 0)])"
  by code_simp+

text \<open>
  C9, as stated, fails. In the group \<^verbatim>\<open>DisplayFile\<close> of the example,
  \<^verbatim>\<open>bookmark\<close> takes a value and \<^verbatim>\<open>file\<close> is a string. In
  \<^verbatim>\<open>prog --file --bookmark=3\<close> the flag \<^verbatim>\<open>file\<close> has no attached value and takes
  the next argument as it stands: the parse returns true with \<^verbatim>\<open>file\<close> equal
  to \<^verbatim>\<open>--bookmark=3\<close>. In \<^verbatim>\<open>prog --file --bookmark 3\<close> it takes \<^verbatim>\<open>--bookmark\<close>,
  and the parse returns false, for \<^verbatim>\<open>3\<close> is left over.
\<close>

theorem attached_value_taken_as_raw_value:
  "parseArgs 4 (instantiate DisplayFile [] (CHR 0x00)) 3 [''prog'', ''--file'', ''--bookmark=3'']
     = Ret (True,
         Group [] (CHR 0x00)
           [Prim ''file'' (CHR ''f'') PString True (VString ''--bookmark=3''),
            Prim ''label'' (CHR ''l'') PString False (VString []),
            Vector ''bookmark'' (CHR ''b'') True True (TPrim PInt32) False [],
            Switch [] (CHR ''p'') False]
           [(''bookmark'', 2), (''label'', 1), (''file'', 0)]
           [(CHR ''p'', 3), (CHR ''b'', 2), (CHR ''l'', 1), (CHR ''f'', 0)])
   \<and> parseArgs 4 (instantiate DisplayFile [] (CHR 0x00)) 4 [''prog'', ''--file'', ''--bookmark'', ''3'']
     = Ret (False,
         Group [] (CHR 0x00)
           [Prim ''file'' (CHR ''f'') PString True (VString ''--bookmark''),
            Prim ''label'' (CHR ''l'') PString False (VString []),
            Vector ''bookmark'' (CHR ''b'') True True (TPrim PInt32) False [],
            Switch [] (CHR ''p'') False]
           [(''bookmark'', 2), (''label'', 1), (''file'', 0)]
           [(CHR ''p'', 3), (CHR ''b'', 2), (CHR ''l'', 1), (CHR ''f'', 0)])
   \<and> parseArgs 4 (instantiate DisplayFile [] (CHR 0x00)) 3 [''prog'', ''--file'', ''--bookmark=3'']
       \<noteq> parseArgs 4 (instantiate DisplayFile [] (CHR 0x00)) 4
           [''prog'', ''--file'', ''--bookmark'', ''3'']"
  by (simp add: displayFile_swallow)

text \<open>
  C9, amended. The two forms leave the same state when the token is read as
  the flag.

  Whole parse. Let \<open>flagName\<close>, and the short name if the short form is used,
  be the name of flags that take a value wherever the tree looks it up. Let no
  flag take the token as its own value: either no primitive flag of the tree
  parses the token, in either form, as a value, or the arguments before the
  token, parsed alone, do not read past their end, so that no flag before it
  is left to take the next argument as its raw value. Then \<^verbatim>\<open>parseArgs\<close>
  returns the same boolean and the same tree for the list with
  \<^verbatim>\<open>--flagName=x\<close> at any place and for the list with \<^verbatim>\<open>--flagName\<close> and \<open>x\<close>,
  or with \<^verbatim>\<open>-s\<close> and \<open>x\<close>, in its place, whatever the arguments before and after
  are and whatever the types of the other flags.

  From the flag on, in any tree: let one reader stand on \<^verbatim>\<open>--name=value\<close> and
  another on \<^verbatim>\<open>--name\<close>, or on the short flag, followed by \<^verbatim>\<open>value\<close> and then
  by the same arguments. A flag that takes a value consumes both with the same
  result and the same node, and leaves readers that differ by the one argument
  only. A group loop that looks the two tokens up to the same value-taking
  member ends with the same result and the same group. From readers that
  differ by a shift only, every node is parsed to the same result and the same
  node, so nothing that follows can tell the two argument lists apart.
\<close>

theorem value_attached_or_next_argument:
  assumes "sameFlagGiven a b"
  shows "(CHR ''='' \<notin> set flagName \<and> sh \<noteq> Some (CHR ''-'')
          \<and> (if pre = [] then valueFlagHere flagName sh root else valueFlagWithin flagName sh root)
          \<and> (refusesAsValue (''--'' @ flagName @ ''='' @ x) (tokenOf flagName sh) root
               \<or> parseArgs k root (int (length pre) + 1) (prog # pre) \<noteq> UB) \<longrightarrow>
          parseArgs k root (int (length pre + length rest) + 2)
              (prog # pre @ (''--'' @ flagName @ ''='' @ x) # rest)
            = parseArgs k root (int (length pre + length rest) + 3)
                (prog # pre @ tokenOf flagName sh # x # rest))
    \<and> (valueNode f \<longrightarrow> sameOutcome (shifted 1) (parseArgsR k f a) (parseArgsR k f b))
    \<and> (dispatchesValue ms bl bs a b \<longrightarrow>
          sameOutcome (\<lambda>a' b'. shifted 1 a' b' \<or> a' = a \<and> b' = b)
            (groupLoop k n c ms bl bs a) (groupLoop k n c ms bl bs b))
    \<and> (shifted d ra rb \<longrightarrow> sameOutcome (shifted d) (parseArgsR k rf ra) (parseArgsR k rf rb))"
proof -
  have 0: "parseArgs k root (int (length pre + length rest) + 2)
              (prog # pre @ (''--'' @ flagName @ ''='' @ x) # rest)
            = parseArgs k root (int (length pre + length rest) + 3)
                (prog # pre @ tokenOf flagName sh # x # rest)"
    if "CHR ''='' \<notin> set flagName" "sh \<noteq> Some (CHR ''-'')"
      "if pre = [] then valueFlagHere flagName sh root else valueFlagWithin flagName sh root"
      "refusesAsValue (''--'' @ flagName @ ''='' @ x) (tokenOf flagName sh) root
         \<or> parseArgs k root (int (length pre) + 1) (prog # pre) \<noteq> UB"
    by (rule parseArgs_anywhere[OF that(1,2) _ _ that(4)]) (use that(3) in \<open>simp_all split: if_splits\<close>)
  have 1: "sameOutcome (shifted 1) (parseArgsR k f a) (parseArgsR k f b)" if "valueNode f"
    using sameFlagGiven_valueNode[OF that assms, of k] by (rule sameOutcome_mono) simp
  have 2: "sameOutcome (\<lambda>a' b'. shifted 1 a' b' \<or> a' = a \<and> b' = b)
            (groupLoop k n c ms bl bs a) (groupLoop k n c ms bl bs b)"
    if "dispatchesValue ms bl bs a b"
    using sameFlagGiven_groupLoop[OF assms that, of k n c] by (rule sameOutcome_mono) auto
  have 3: "sameOutcome (shifted d) (parseArgsR k rf ra) (parseArgsR k rf rb)" if "shifted d ra rb"
    using shifted_simulation(1)[OF that] by (rule sameResult_sameOutcome)
  from 0 1 2 3 show ?thesis by blast
qed

theorem value_attached_or_next_argument_witness:
  "parseArgs 6 (instantiate DisplayFile [] (CHR 0x00)) 5
       [''prog'', ''--file'', ''a.txt'', ''--bookmark'', ''3'']
     = Ret (True, Group [] (CHR 0x00)
           [Prim ''file'' (CHR ''f'') PString True (VString ''a.txt''),
            Prim ''label'' (CHR ''l'') PString False (VString []),
            Vector ''bookmark'' (CHR ''b'') True True (TPrim PInt32) True
              [Prim ''bookmark'' (CHR ''b'') PInt32 True (VInt 3)],
            Switch [] (CHR ''p'') False]
           [(''bookmark'', 2), (''label'', 1), (''file'', 0)]
           [(CHR ''p'', 3), (CHR ''b'', 2), (CHR ''l'', 1), (CHR ''f'', 0)])
   \<and> parseArgs 6 (instantiate DisplayFile [] (CHR 0x00)) 5
       [''prog'', ''--file'', ''a.txt'', ''-b'', ''3'']
     = Ret (True, Group [] (CHR 0x00)
           [Prim ''file'' (CHR ''f'') PString True (VString ''a.txt''),
            Prim ''label'' (CHR ''l'') PString False (VString []),
            Vector ''bookmark'' (CHR ''b'') True True (TPrim PInt32) True
              [Prim ''bookmark'' (CHR ''b'') PInt32 True (VInt 3)],
            Switch [] (CHR ''p'') False]
           [(''bookmark'', 2), (''label'', 1), (''file'', 0)]
           [(CHR ''p'', 3), (CHR ''b'', 2), (CHR ''l'', 1), (CHR ''f'', 0)])
   \<and> parseArgs 7 scenarioA 8
       [''prog'', ''--alive=true'', ''--param'', ''20'', ''--ind'', ''10'', ''--ind'', ''11'']
     = Ret (True, Group [] (CHR 0x00)
         [Prim ''alive'' (CHR 0x00) PBool True (VBool True),
          Prim ''param'' (CHR 0x00) PInt64 True (VInt 20),
          Vector ''ind'' (CHR 0x00) True True (TPrim PInt32) True
            [Prim ''ind'' (CHR 0x00) PInt32 True (VInt 10),
             Prim ''ind'' (CHR 0x00) PInt32 True (VInt 11)]]
         [(''ind'', 2), (''param'', 1), (''alive'', 0)] [])
   \<and> parseArgs 7 scenarioA 8 argvA2 = Ret (True, Group [] (CHR 0x00)
         [Prim ''alive'' (CHR 0x00) PBool True (VBool True),
          Prim ''param'' (CHR 0x00) PInt64 True (VInt 20),
          Vector ''ind'' (CHR 0x00) True True (TPrim PInt32) True
            [Prim ''ind'' (CHR 0x00) PInt32 True (VInt 10),
             Prim ''ind'' (CHR 0x00) PInt32 True (VInt 11)]]
         [(''ind'', 2), (''param'', 1), (''alive'', 0)] [])
   \<and> parseArgs 3 (instantiate DisplayFile [] (CHR 0x00)) 3 [''prog'', ''-f'', ''a.txt'']
       = parseArgs 3 (instantiate DisplayFile [] (CHR 0x00)) 2 [''prog'', ''--file=a.txt'']
   \<and> parseArgs 9 AllFlags 6 [''FlagsExample'', ''-D'', ''--file'', ''a.txt'', ''-b'', ''3'']
       = parseArgs 9 AllFlags 5 [''FlagsExample'', ''-D'', ''--file'', ''a.txt'', ''--bookmark=3'']
   \<and> parseArgs 7 scenarioA 4 [''prog'', ''--param'', ''--ind'', ''10'']
       = Ret (False,
           Group [] (CHR 0x00)
             [Prim ''alive'' (CHR 0x00) PBool False (VBool False),
              Prim ''param'' (CHR 0x00) PInt64 False (VInt 0),
              Vector ''ind'' (CHR 0x00) True True (TPrim PInt32) False []]
             [(''ind'', 2), (''param'', 1), (''alive'', 0)] [])
   \<and> sameOutcome (shifted 1)
         (parseArgsR 2 (Prim ''alive'' (CHR 0x00) PBool False (VBool False))
            (onLongFlagValue argvA 1 ''alive'' ''true''))
         (parseArgsR 2 (Prim ''alive'' (CHR 0x00) PBool False (VBool False))
            (onLongFlag argvA2 1 ''alive''))
   \<and> sameOutcome
         (\<lambda>a' b'. shifted 1 a' b'
            \<or> a' = onLongFlagValue argvA 1 ''alive'' ''true'' \<and> b' = onLongFlag argvA2 1 ''alive'')
         (groupLoop 7 [] (CHR 0x00) (members scenarioA) [(''ind'', 2), (''param'', 1), (''alive'', 0)] []
            (onLongFlagValue argvA 1 ''alive'' ''true''))
         (groupLoop 7 [] (CHR 0x00) (members scenarioA) [(''ind'', 2), (''param'', 1), (''alive'', 0)] []
            (onLongFlag argvA2 1 ''alive''))
   \<and> sameOutcome (shifted 1)
         (parseArgsR 6 scenarioA (onLongFlag argvA 2 ''param''))
         (parseArgsR 6 scenarioA (onLongFlag argvA2 3 ''param''))"
proof -
  let ?a = "onLongFlagValue argvA 1 ''alive'' ''true''"
  let ?b = "onLongFlag argvA2 1 ''alive''"
  let ?DF = "instantiate DisplayFile [] (CHR 0x00)"
  have g: "sameFlagGiven ?a ?b"
    by (simp add: sameFlagGiven_def onLongFlagValue_def onLongFlag_def argvA_def argvA2_def)
  note T = value_attached_or_next_argument[OF g]
  have e: "CHR ''='' \<notin> set ''alive''" "CHR ''='' \<notin> set ''file''" "CHR ''='' \<notin> set ''ind''"
    "CHR ''='' \<notin> set ''bookmark''"
    by simp_all
  have one: "parseArgs k f (int (length ([] :: string list)) + 1) [''prog''] \<noteq> UB" for k f
    by (simp add: parseArgs_def)
  have w1: "parseArgs 6 ?DF (int (length [''--file'', ''a.txt''] + length ([] :: string list)) + 2)
             (''prog'' # [''--file'', ''a.txt''] @ (''--'' @ ''bookmark'' @ ''='' @ ''3'') # [])
           = parseArgs 6 ?DF (int (length [''--file'', ''a.txt''] + length ([] :: string list)) + 3)
             (''prog'' # [''--file'', ''a.txt''] @ tokenOf ''bookmark'' None # ''3'' # [])"
    by (rule T[THEN conjunct1, THEN mp])
       (use e example_trees_take_values(1) example_prefixes(1) in simp)
  have w2: "parseArgs 6 ?DF (int (length [''--file'', ''a.txt''] + length ([] :: string list)) + 2)
             (''prog'' # [''--file'', ''a.txt''] @ (''--'' @ ''bookmark'' @ ''='' @ ''3'') # [])
           = parseArgs 6 ?DF (int (length [''--file'', ''a.txt''] + length ([] :: string list)) + 3)
             (''prog'' # [''--file'', ''a.txt''] @ tokenOf ''bookmark'' (Some (CHR ''b'')) # ''3'' # [])"
    by (rule T[THEN conjunct1, THEN mp])
       (use e example_trees_take_values(2) example_prefixes(1) in simp)
  have w3: "parseArgs 7 scenarioA (int (length [''--alive=true'', ''--param'', ''20'']
               + length [''--ind'', ''11'']) + 2)
             (''prog'' # [''--alive=true'', ''--param'', ''20''] @ (''--'' @ ''ind'' @ ''='' @ ''10'')
                # [''--ind'', ''11''])
           = parseArgs 7 scenarioA (int (length [''--alive=true'', ''--param'', ''20'']
               + length [''--ind'', ''11'']) + 3)
             (''prog'' # [''--alive=true'', ''--param'', ''20''] @ tokenOf ''ind'' None # ''10''
                # [''--ind'', ''11''])"
    by (rule T[THEN conjunct1, THEN mp])
       (use e example_trees_take_values(4) example_prefixes(2) in simp)
  have w4: "parseArgs 7 scenarioA
               (int (length ([] :: string list) + length [''--param'', ''20'', ''--ind=10'', ''--ind'', ''11'']) + 2)
             (''prog'' # [] @ (''--'' @ ''alive'' @ ''='' @ ''true'')
                # [''--param'', ''20'', ''--ind=10'', ''--ind'', ''11''])
           = parseArgs 7 scenarioA
               (int (length ([] :: string list) + length [''--param'', ''20'', ''--ind=10'', ''--ind'', ''11'']) + 3)
             (''prog'' # [] @ tokenOf ''alive'' None # ''true''
                # [''--param'', ''20'', ''--ind=10'', ''--ind'', ''11''])"
    by (rule T[THEN conjunct1, THEN mp])
       (use e example_trees_take_values(5) one[of 7 scenarioA] in simp)
  have w5: "parseArgs 3 ?DF (int (length ([] :: string list) + length ([] :: string list)) + 2)
             (''prog'' # [] @ (''--'' @ ''file'' @ ''='' @ ''a.txt'') # [])
           = parseArgs 3 ?DF (int (length ([] :: string list) + length ([] :: string list)) + 3)
             (''prog'' # [] @ tokenOf ''file'' (Some (CHR ''f'')) # ''a.txt'' # [])"
    by (rule T[THEN conjunct1, THEN mp])
       (use e example_trees_take_values(3) one[of 3 ?DF] in simp)
  have w6: "parseArgs 9 AllFlags (int (length [''-D'', ''--file'', ''a.txt''] + length ([] :: string list)) + 2)
             (''FlagsExample'' # [''-D'', ''--file'', ''a.txt''] @ (''--'' @ ''bookmark'' @ ''='' @ ''3'') # [])
           = parseArgs 9 AllFlags (int (length [''-D'', ''--file'', ''a.txt''] + length ([] :: string list)) + 3)
             (''FlagsExample'' # [''-D'', ''--file'', ''a.txt''] @ tokenOf ''bookmark'' (Some (CHR ''b''))
                # ''3'' # [])"
    by (rule T[THEN conjunct1, THEN mp])
       (use e example_trees_take_values(6) example_prefixes(3) in simp)
  have w7: "parseArgs 7 scenarioA (int (length [''--param''] + length ([] :: string list)) + 2)
             (''prog'' # [''--param''] @ (''--'' @ ''ind'' @ ''='' @ ''10'') # [])
           = parseArgs 7 scenarioA (int (length [''--param''] + length ([] :: string list)) + 3)
             (''prog'' # [''--param''] @ tokenOf ''ind'' None # ''10'' # [])"
    by (rule T[THEN conjunct1, THEN mp])
       (use e example_trees_take_values(4,7) in \<open>simp add: tokenOf_def\<close>)
  have 3: "sameOutcome (shifted 1)
         (parseArgsR 2 (Prim ''alive'' (CHR 0x00) PBool False (VBool False)) ?a)
         (parseArgsR 2 (Prim ''alive'' (CHR 0x00) PBool False (VBool False)) ?b)"
    by (rule T[THEN conjunct2, THEN conjunct1, THEN mp]) simp
  have 4: "sameOutcome (\<lambda>a' b'. shifted 1 a' b' \<or> a' = ?a \<and> b' = ?b)
         (groupLoop 7 [] (CHR 0x00) (members scenarioA) [(''ind'', 2), (''param'', 1), (''alive'', 0)] [] ?a)
         (groupLoop 7 [] (CHR 0x00) (members scenarioA) [(''ind'', 2), (''param'', 1), (''alive'', 0)] [] ?b)"
    by (rule T[THEN conjunct2, THEN conjunct2, THEN conjunct1, THEN mp])
       (simp add: dispatchesValue_def scenarioA_members onLongFlagValue_def onLongFlag_def)
  have 5: "sameOutcome (shifted 1)
         (parseArgsR 6 scenarioA (onLongFlag argvA 2 ''param''))
         (parseArgsR 6 scenarioA (onLongFlag argvA2 3 ''param''))"
    by (rule T[THEN conjunct2, THEN conjunct2, THEN conjunct2, THEN mp])
       (simp add: shifted_def onLongFlag_def argvA_def argvA2_def)
  from w1 displayFile_attached have r1: "parseArgs 6 ?DF 5
       [''prog'', ''--file'', ''a.txt'', ''--bookmark'', ''3'']
     = Ret (True, Group [] (CHR 0x00)
           [Prim ''file'' (CHR ''f'') PString True (VString ''a.txt''),
            Prim ''label'' (CHR ''l'') PString False (VString []),
            Vector ''bookmark'' (CHR ''b'') True True (TPrim PInt32) True
              [Prim ''bookmark'' (CHR ''b'') PInt32 True (VInt 3)],
            Switch [] (CHR ''p'') False]
           [(''bookmark'', 2), (''label'', 1), (''file'', 0)]
           [(CHR ''p'', 3), (CHR ''b'', 2), (CHR ''l'', 1), (CHR ''f'', 0)])"
    by (simp add: tokenOf_def)
  from w2 displayFile_attached have r2: "parseArgs 6 ?DF 5
       [''prog'', ''--file'', ''a.txt'', ''-b'', ''3'']
     = Ret (True, Group [] (CHR 0x00)
           [Prim ''file'' (CHR ''f'') PString True (VString ''a.txt''),
            Prim ''label'' (CHR ''l'') PString False (VString []),
            Vector ''bookmark'' (CHR ''b'') True True (TPrim PInt32) True
              [Prim ''bookmark'' (CHR ''b'') PInt32 True (VInt 3)],
            Switch [] (CHR ''p'') False]
           [(''bookmark'', 2), (''label'', 1), (''file'', 0)]
           [(CHR ''p'', 3), (CHR ''b'', 2), (CHR ''l'', 1), (CHR ''f'', 0)])"
    by (simp add: tokenOf_def)
  from w3 scenarioA_run have r3: "parseArgs 7 scenarioA 8
       [''prog'', ''--alive=true'', ''--param'', ''20'', ''--ind'', ''10'', ''--ind'', ''11'']
     = Ret (True, Group [] (CHR 0x00)
         [Prim ''alive'' (CHR 0x00) PBool True (VBool True),
          Prim ''param'' (CHR 0x00) PInt64 True (VInt 20),
          Vector ''ind'' (CHR 0x00) True True (TPrim PInt32) True
            [Prim ''ind'' (CHR 0x00) PInt32 True (VInt 10),
             Prim ''ind'' (CHR 0x00) PInt32 True (VInt 11)]]
         [(''ind'', 2), (''param'', 1), (''alive'', 0)] [])"
    by (simp add: argvA_def tokenOf_def)
  from w4 scenarioA_run have r4: "parseArgs 7 scenarioA 8 argvA2 = Ret (True, Group [] (CHR 0x00)
         [Prim ''alive'' (CHR 0x00) PBool True (VBool True),
          Prim ''param'' (CHR 0x00) PInt64 True (VInt 20),
          Vector ''ind'' (CHR 0x00) True True (TPrim PInt32) True
            [Prim ''ind'' (CHR 0x00) PInt32 True (VInt 10),
             Prim ''ind'' (CHR 0x00) PInt32 True (VInt 11)]]
         [(''ind'', 2), (''param'', 1), (''alive'', 0)] [])"
    by (simp add: argvA_def argvA2_def tokenOf_def)
  from w5 have r5: "parseArgs 3 ?DF 3 [''prog'', ''-f'', ''a.txt'']
       = parseArgs 3 ?DF 2 [''prog'', ''--file=a.txt'']"
    by (simp add: tokenOf_def)
  from w6 have r6: "parseArgs 9 AllFlags 6 [''FlagsExample'', ''-D'', ''--file'', ''a.txt'', ''-b'', ''3'']
       = parseArgs 9 AllFlags 5 [''FlagsExample'', ''-D'', ''--file'', ''a.txt'', ''--bookmark=3'']"
    by (simp add: tokenOf_def)
  from w7 scenarioA_refused have r7: "parseArgs 7 scenarioA 4 [''prog'', ''--param'', ''--ind'', ''10'']
       = Ret (False,
           Group [] (CHR 0x00)
             [Prim ''alive'' (CHR 0x00) PBool False (VBool False),
              Prim ''param'' (CHR 0x00) PInt64 False (VInt 0),
              Vector ''ind'' (CHR 0x00) True True (TPrim PInt32) False []]
             [(''ind'', 2), (''param'', 1), (''alive'', 0)] [])"
    by (simp add: tokenOf_def)
  from r1 r2 r3 r4 r5 r6 r7 3 4 5 show ?thesis by blast
qed

end
